theory Spec2Isabelle
  imports Main
begin

section \<open>JavaScript values used by the migration tool\<close>

text \<open>
  A nullable string (a TypeORM column declared \<open>nullable: true\<close>, or a value of type
  \<open>string | null\<close>) is a \<open>string option\<close>; \<open>None\<close> stands for \<open>null\<close> and
  \<open>undefined\<close>. A string is truthy exactly when it is not empty.
\<close>

definition truthy :: "string option \<Rightarrow> bool" where
  "truthy v = (case v of None \<Rightarrow> False | Some s \<Rightarrow> s \<noteq> [])"

text \<open>The operator \<open>a || b\<close> on nullable strings.\<close>

definition js_or :: "string option \<Rightarrow> string option \<Rightarrow> string option" where
  "js_or a b = (if truthy a then a else b)"

text \<open>\<open>String.prototype.charAt\<close>: the empty string out of range.\<close>

definition charAt :: "string \<Rightarrow> nat \<Rightarrow> string" where
  "charAt s i = (if i < length s then [s ! i] else [])"

text \<open>
  \<open>Array.prototype.slice(start, end)\<close> with integer arguments: a negative index counts
  from the end, and both indices are clamped to the array.
\<close>

definition relIndex :: "int \<Rightarrow> int \<Rightarrow> nat" where
  "relIndex len k = nat (if k < 0 then max (len + k) 0 else min k len)"

definition slice :: "'a list \<Rightarrow> int \<Rightarrow> int \<Rightarrow> 'a list" where
  "slice xs start end =
     (let len = int (length xs);
          k = relIndex len start;
          final = relIndex len end
      in take (final - k) (drop k xs))"

section \<open>PasswordUtils (src/utils/password.utils.ts)\<close>

text \<open>
  The line terminators that \<open>.\<close> does not match in a JavaScript regular expression
  (the two that exist in an 8-bit character type).
\<close>

definition lineTerminator :: "char \<Rightarrow> bool" where
  "lineTerminator c = (c = CHR 0x0A \<or> c = CHR 0x0D)"

text \<open>
  \<open>ldapPassword.match(/^\{TAG\}(.+)$/)\<close>: the string starts with the tag, and the rest
  is one or more characters none of which is a line terminator. The result is the
  capture group \<open>match[1]\<close>.
\<close>

definition matchTagged :: "string \<Rightarrow> string \<Rightarrow> string option" where
  "matchTagged tag s =
     (let rest = drop (length tag) s
      in if take (length tag) s = tag \<and> rest \<noteq> [] \<and> \<not> list_ex lineTerminator rest
         then Some rest else None)"

definition patterns :: "string list" where
  "patterns = [''{SSHA}'', ''{SHA}'', ''{MD5}'', ''{CRYPT}'', ''{CLEARTEXT}'']"

text \<open>
  \<open>extractHashFromLdap\<close>: the first pattern that matches gives its capture group; when
  no pattern matches the source returns \<open>ldapPassword\<close> itself.
\<close>

fun firstMatch :: "string list \<Rightarrow> string \<Rightarrow> string option" where
  "firstMatch [] s = None"
| "firstMatch (p # ps) s =
     (case matchTagged p s of Some m \<Rightarrow> Some m | None \<Rightarrow> firstMatch ps s)"

definition extractHashFromLdap :: "string \<Rightarrow> string option" where
  "extractHashFromLdap ldapPassword =
     (case firstMatch patterns ldapPassword of
        Some m \<Rightarrow> Some m
      | None \<Rightarrow> Some ldapPassword)"

definition chars :: string where
  "chars = ''ABCDEFGHIJKLMNOPQRSTUVWXYZabcdefghijklmnopqrstuvwxyz0123456789!@#$%^&*''"

text \<open>
  \<open>generateRandomPassword\<close>: twelve characters; \<open>rnd i\<close> is the value of
  \<open>Math.floor(Math.random() * chars.length)\<close> in iteration \<open>i\<close>.
\<close>

definition generateRandomPassword :: "(nat \<Rightarrow> nat) \<Rightarrow> string" where
  "generateRandomPassword rnd = concat (map (\<lambda>i. charAt chars (rnd i)) [0..<12])"

text \<open>
  \<open>convertLdapPassword\<close>. The parameter \<open>hash\<close> is \<open>bcrypt.hash(_, SALT_ROUNDS)\<close>
  (\<open>Inl\<close> when it throws); the \<open>catch\<close> of the source turns a throw into \<open>null\<close>.
\<close>

definition convertLdapPassword ::
  "(string \<Rightarrow> string + string) \<Rightarrow> (nat \<Rightarrow> nat) \<Rightarrow> string \<Rightarrow> string option" where
  "convertLdapPassword hash rnd ldapPassword =
     (if ldapPassword = [] then None
      else let hashData = extractHashFromLdap ldapPassword
           in if \<not> truthy hashData then None
              else (case hash (generateRandomPassword rnd) of
                      Inl err \<Rightarrow> None
                    | Inr bcryptHash \<Rightarrow> Some bcryptHash))"

text \<open>\<open>isLdapHash\<close>: the patterns \<open>/^\{TAG\}/\<close> are tested without a capture group.\<close>

definition isLdapHash :: "string \<Rightarrow> bool" where
  "isLdapHash password =
     (if password = [] then False
      else list_ex (\<lambda>tag. take (length tag) password = tag) patterns)"

section \<open>Entities and directory records\<close>

text \<open>
  The rows of the tables \<open>clients\<close> and \<open>users\<close> (entities \<open>Client\<close> and \<open>User\<close>)
  and of \<open>migration_log\<close>. The generated primary key is a number taken from a counter
  of the store; the time stamps that the database maintains are left out. Field names
  carry a suffix where two records of the source share a name.
\<close>

record Client =
  id_c :: nat
  client_id_c :: string
  name_c :: "string option"

record User =
  id_u :: nat
  client_id_u :: nat
  username :: string
  first_name :: "string option"
  last_name :: "string option"
  email :: "string option"
  password_hash :: "string option"
  ldap_dn :: string

record MigrationLog =
  total_clients :: nat
  total_users :: nat
  successful_clients :: nat
  successful_users :: nat
  failed_clients :: nat
  failed_users :: nat
  error_log :: "string option"
  dry_run :: bool

text \<open>An entry of an LDAP search result: its DN and its attributes with their values.\<close>

record SearchEntry =
  entry_dn :: string
  attributes :: "(string \<times> string list) list"

record ClientOU =
  ou :: string
  client_dn :: string

record UserData =
  uid :: string
  givenName :: string
  sn :: string
  mail :: string
  userPassword :: string
  dn :: string

text \<open>The object \<open>{ ...userData, password_hash: passwordHash }\<close> built by \<open>processUser\<close>.\<close>

record DbUserData = UserData +
  password_hash_d :: "string option"

record MigrationStats =
  totalClients :: nat
  totalUsers :: nat
  successfulClients :: nat
  successfulUsers :: nat
  failedClients :: nat
  failedUsers :: nat
  errors :: "string list"

record MigrationResult =
  success :: bool
  stats :: MigrationStats
  duration :: int
  dryRun_r :: bool

section \<open>The state of the services and the outside world\<close>

text \<open>
  The calls that \<open>MigrationService\<close> makes on \<open>LdapService\<close> and \<open>DatabaseService\<close>,
  recorded in the order in which they are made.
\<close>

datatype call =
    ConnectCall
  | InitializeTablesCall
  | SearchClientsCall
  | UpsertClientCall string
  | SearchUsersCall string
  | UpsertUserCall nat string
  | LogMigrationRunCall
  | DisconnectCall

text \<open>
  \<open>Sys\<close> is everything the run reads and writes: the three tables and the key counter of
  the store, the flag \<open>isConnected\<close> of \<open>LdapService\<close>, whether the data source of
  \<open>DatabaseService\<close> is initialized, the \<open>stats\<close> object of the current run, and the
  record of calls.
\<close>

record Sys =
  clients_table :: "Client list"
  users_table :: "User list"
  migration_log :: "MigrationLog list"
  next_id :: nat
  isConnected :: bool
  dataSourceInitialized :: bool
  run_stats :: MigrationStats
  calls :: "call list"

text \<open>
  \<open>World\<close> is what the code does not decide: the configuration, and the answers of the
  LDAP client, the database driver, bcrypt, the random number generator and the clock.
  A fault is the message of the error that the external call throws, \<open>None\<close> when it
  succeeds; the faults of the repositories are given per key, those of the searches per
  organizational unit. The calls of the logger are left out: they write to the console
  and to files and are taken not to throw. \<open>mathRandom d i\<close> is the index that
  \<open>Math.floor(Math.random() * chars.length)\<close> yields in iteration \<open>i\<close> while the
  credential of the user with DN \<open>d\<close> is converted. \<open>batchSize\<close> is the result of \<open>parseInt(process.env.BATCH_SIZE || '100', 10)\<close>:
  an integer, or \<open>NaN\<close>, which is \<open>None\<close> here.
\<close>

record World =
  dryRun :: bool
  batchSize :: "int option"
  bindFault :: "string option"
  unbindFault :: "string option"
  ddlFault :: "string option"
  clientSearch :: "string + SearchEntry list"
  userSearch :: "string \<Rightarrow> string + SearchEntry list"
  clientRepoFault :: "string \<Rightarrow> string option"
  userRepoFault :: "nat \<Rightarrow> string \<Rightarrow> string option"
  logInsertFault :: "string option"
  bcryptHash :: "string \<Rightarrow> string + string"
  mathRandom :: "string \<Rightarrow> nat \<Rightarrow> nat"
  startTime :: int
  endTime :: int

definition called :: "call \<Rightarrow> Sys \<Rightarrow> Sys" where
  "called c st = st\<lparr>calls := calls st @ [c]\<rparr>"

section \<open>LdapService (src/services/ldap.service.ts)\<close>

text \<open>\<open>(attributes.a as string[])?.[0] || ''\<close>\<close>

definition firstValue :: "(string \<times> string list) list \<Rightarrow> string \<Rightarrow> string" where
  "firstValue attrs a =
     (case map_of attrs a of None \<Rightarrow> [] | Some [] \<Rightarrow> [] | Some (v # vs) \<Rightarrow> v)"

definition connect :: "World \<Rightarrow> Sys \<Rightarrow> (string + unit) \<times> Sys" where
  "connect w st =
     (let st1 = called ConnectCall st
      in case bindFault w of
           Some msg \<Rightarrow> (Inl (''LDAP connection failed: '' @ msg), st1)
         | None \<Rightarrow> (Inr (), st1\<lparr>isConnected := True\<rparr>))"

definition disconnect :: "World \<Rightarrow> Sys \<Rightarrow> Sys" where
  "disconnect w st =
     (let st1 = called DisconnectCall st
      in if isConnected st1
         then (case unbindFault w of
                 Some msg \<Rightarrow> st1
               | None \<Rightarrow> st1\<lparr>isConnected := False\<rparr>)
         else st1)"

definition toClientOU :: "SearchEntry \<Rightarrow> ClientOU" where
  "toClientOU entry = \<lparr>ou = firstValue (attributes entry) ''ou'', client_dn = entry_dn entry\<rparr>"

definition searchClients :: "World \<Rightarrow> Sys \<Rightarrow> (string + ClientOU list) \<times> Sys" where
  "searchClients w st =
     (let st1 = called SearchClientsCall st
      in if \<not> isConnected st1 then (Inl ''LDAP not connected'', st1)
         else (case clientSearch w of
                 Inl msg \<Rightarrow> (Inl (''LDAP client search failed: '' @ msg), st1)
               | Inr searchEntries \<Rightarrow>
                   (Inr (filter (\<lambda>client. ou client \<noteq> [] \<and> ou client \<noteq> ''clients'')
                           (map toClientOU searchEntries)), st1)))"

definition toUserData :: "SearchEntry \<Rightarrow> UserData" where
  "toUserData entry =
     \<lparr>uid = firstValue (attributes entry) ''uid'',
      givenName = firstValue (attributes entry) ''givenName'',
      sn = firstValue (attributes entry) ''sn'',
      mail = firstValue (attributes entry) ''mail'',
      userPassword = firstValue (attributes entry) ''userPassword'',
      dn = entry_dn entry\<rparr>"

definition searchUsers :: "World \<Rightarrow> string \<Rightarrow> Sys \<Rightarrow> (string + UserData list) \<times> Sys" where
  "searchUsers w clientOU st =
     (let st1 = called (SearchUsersCall clientOU) st
      in if \<not> isConnected st1 then (Inl ''LDAP not connected'', st1)
         else (case userSearch w clientOU of
                 Inl msg \<Rightarrow>
                   (Inl (''LDAP user search failed for '' @ clientOU @ '': '' @ msg), st1)
               | Inr searchEntries \<Rightarrow>
                   (Inr (filter (\<lambda>user. uid user \<noteq> []) (map toUserData searchEntries)), st1)))"

section \<open>DatabaseService (src/services/database.service.ts)\<close>

text \<open>\<open>findOne\<close>: the position of the first row that satisfies the condition.\<close>

fun findIndex :: "('a \<Rightarrow> bool) \<Rightarrow> 'a list \<Rightarrow> nat option" where
  "findIndex P [] = None"
| "findIndex P (x # xs) = (if P x then Some 0 else map_option Suc (findIndex P xs))"

definition initializeTables :: "World \<Rightarrow> Sys \<Rightarrow> (string + unit) \<times> Sys" where
  "initializeTables w st =
     (let st1 = called InitializeTablesCall st
      in case ddlFault w of
           Some msg \<Rightarrow> (Inl (''Table initialization failed: '' @ msg), st1)
         | None \<Rightarrow> (Inr (), st1))"

text \<open>
  \<open>upsertClient\<close>. \<open>save\<close> of an entity that \<open>findOne\<close> returned writes that row back
  in its place; \<open>save\<close> of a created entity appends a row with a fresh key. A fault of
  the repository leaves the table as it was and is rethrown with the prefix of the
  \<open>catch\<close> block.
\<close>

definition upsertClient ::
  "World \<Rightarrow> string \<Rightarrow> string option \<Rightarrow> Sys \<Rightarrow> (string + Client) \<times> Sys" where
  "upsertClient w clientId name st =
     (let st1 = called (UpsertClientCall clientId) st
      in case clientRepoFault w clientId of
           Some msg \<Rightarrow> (Inl (''Client upsert failed for '' @ clientId @ '': '' @ msg), st1)
         | None \<Rightarrow>
             (case findIndex (\<lambda>c. client_id_c c = clientId) (clients_table st1) of
                Some i \<Rightarrow>
                  (let client = (clients_table st1 ! i)
                                  \<lparr>name_c := js_or name (name_c (clients_table st1 ! i))\<rparr>
                   in (Inr client, st1\<lparr>clients_table := (clients_table st1)[i := client]\<rparr>))
              | None \<Rightarrow>
                  (let client = \<lparr>id_c = next_id st1, client_id_c = clientId, name_c = name\<rparr>
                   in (Inr client,
                       st1\<lparr>clients_table := clients_table st1 @ [client],
                           next_id := next_id st1 + 1\<rparr>))))"

definition updateUser :: "DbUserData \<Rightarrow> User \<Rightarrow> User" where
  "updateUser userData user =
     user\<lparr>first_name := js_or (Some (givenName userData)) (first_name user),
          last_name := js_or (Some (sn userData)) (last_name user),
          email := js_or (Some (mail userData)) (email user),
          password_hash := js_or (password_hash_d userData) (password_hash user),
          ldap_dn := dn userData\<rparr>"

definition createUser :: "nat \<Rightarrow> DbUserData \<Rightarrow> nat \<Rightarrow> User" where
  "createUser newId userData clientId =
     \<lparr>id_u = newId,
      client_id_u = clientId,
      username = uid userData,
      first_name = Some (givenName userData),
      last_name = Some (sn userData),
      email = Some (mail userData),
      password_hash = password_hash_d userData,
      ldap_dn = dn userData\<rparr>"

definition upsertUser :: "World \<Rightarrow> DbUserData \<Rightarrow> nat \<Rightarrow> Sys \<Rightarrow> (string + User) \<times> Sys" where
  "upsertUser w userData clientId st =
     (let st1 = called (UpsertUserCall clientId (uid userData)) st
      in case userRepoFault w clientId (uid userData) of
           Some msg \<Rightarrow>
             (Inl (''User upsert failed for '' @ uid userData @ '': '' @ msg), st1)
         | None \<Rightarrow>
             (case findIndex (\<lambda>u. client_id_u u = clientId \<and> username u = uid userData)
                     (users_table st1) of
                Some i \<Rightarrow>
                  (let user = updateUser userData (users_table st1 ! i)
                   in (Inr user, st1\<lparr>users_table := (users_table st1)[i := user]\<rparr>))
              | None \<Rightarrow>
                  (let user = createUser (next_id st1) userData clientId
                   in (Inr user,
                       st1\<lparr>users_table := users_table st1 @ [user],
                           next_id := next_id st1 + 1\<rparr>))))"

text \<open>
  \<open>logMigrationRun\<close>. The object \<open>stats\<close> has no property \<open>errorLog\<close> and no property
  \<open>dryRun\<close>, so \<open>stats.errorLog || null\<close> is \<open>null\<close> and \<open>stats.dryRun || false\<close> is
  \<open>false\<close>; \<open>summaryRow\<close> is the list of values given to the \<open>INSERT\<close>. A fault of the
  insert is logged and not rethrown.
\<close>

definition summaryRow :: "MigrationStats \<Rightarrow> MigrationLog" where
  "summaryRow s =
     \<lparr>total_clients = totalClients s,
      total_users = totalUsers s,
      successful_clients = successfulClients s,
      successful_users = successfulUsers s,
      failed_clients = failedClients s,
      failed_users = failedUsers s,
      error_log = None,
      dry_run = False\<rparr>"

definition logMigrationRun :: "World \<Rightarrow> MigrationStats \<Rightarrow> Sys \<Rightarrow> Sys" where
  "logMigrationRun w s st =
     (let st1 = called LogMigrationRunCall st
      in case logInsertFault w of
           Some msg \<Rightarrow> st1
         | None \<Rightarrow> st1\<lparr>migration_log := migration_log st1 @ [summaryRow s]\<rparr>)"

definition onModuleDestroy :: "Sys \<Rightarrow> Sys" where
  "onModuleDestroy st =
     (if dataSourceInitialized st then st\<lparr>dataSourceInitialized := False\<rparr> else st)"

section \<open>MigrationService (src/services/migration.service.ts)\<close>

text \<open>
  \<open>processUser\<close>. Everything in the \<open>try\<close> block that can throw is the call of
  \<open>upsertUser\<close> (\<open>convertLdapPassword\<close> catches its own errors); the \<open>catch\<close> block
  counts the failure and appends one message, and the method never rejects.
\<close>

definition processUser :: "World \<Rightarrow> UserData \<Rightarrow> nat \<Rightarrow> Sys \<Rightarrow> Sys" where
  "processUser w userData clientId st =
     (let passwordHash =
            (if userPassword userData \<noteq> []
             then convertLdapPassword (bcryptHash w) (mathRandom w (dn userData))
                    (userPassword userData)
             else None);
          dbUserData =
            \<lparr>uid = uid userData, givenName = givenName userData, sn = sn userData,
             mail = mail userData, userPassword = userPassword userData, dn = dn userData,
             password_hash_d = passwordHash\<rparr>
      in case upsertUser w dbUserData clientId st of
           (Inr user, st1) \<Rightarrow>
             st1\<lparr>run_stats := (run_stats st1)
                   \<lparr>successfulUsers := successfulUsers (run_stats st1) + 1\<rparr>\<rparr>
         | (Inl message, st1) \<Rightarrow>
             st1\<lparr>run_stats := (run_stats st1)
                   \<lparr>failedUsers := failedUsers (run_stats st1) + 1,
                    errors := errors (run_stats st1) @
                                [''User '' @ uid userData @ '': '' @ message]\<rparr>\<rparr>)"

text \<open>
  One batch: \<open>batch.map(user => this.processUser(...))\<close> followed by
  \<open>await Promise.allSettled(promises)\<close>. The users of the batch are taken in the order
  of the array, each one to its end before the next; \<open>allSettled\<close> waits for all of them
  and never rejects.
\<close>

definition processBatch :: "World \<Rightarrow> nat \<Rightarrow> UserData list \<Rightarrow> Sys \<Rightarrow> Sys" where
  "processBatch w clientId batch st = foldl (\<lambda>s user. processUser w user clientId s) st batch"

text \<open>
  The loop \<open>for (let i = 0; i < users.length; i += batchSize)\<close> for an integer batch
  size. It does not end when the batch size is zero or negative and there are users;
  \<open>None\<close> is the run that never returns.
\<close>

partial_function (option) batchLoop ::
  "World \<Rightarrow> nat \<Rightarrow> UserData list \<Rightarrow> int \<Rightarrow> int \<Rightarrow> Sys \<Rightarrow> Sys option" where
  "batchLoop w clientId users bsize i st =
     (if i < int (length users)
      then batchLoop w clientId users bsize (i + bsize)
             (processBatch w clientId (slice users i (i + bsize)) st)
      else Some st)"

text \<open>
  \<open>processClient\<close>, with the error it throws (\<open>Some message\<close>) or \<open>None\<close> when it
  returns. With the batch bsize \<open>NaN\<close> the loop runs once when there are users:
  \<open>users.slice(0, NaN)\<close> is empty, \<open>i\<close> becomes \<open>NaN\<close> and \<open>NaN < users.length\<close> is false.
\<close>

definition processClient :: "World \<Rightarrow> ClientOU \<Rightarrow> Sys \<Rightarrow> (string option \<times> Sys) option" where
  "processClient w client st =
     (case upsertClient w (ou client) None st of
        (Inl message, st1) \<Rightarrow> Some (Some message, st1)
      | (Inr dbClient, st1) \<Rightarrow>
          (case searchUsers w (ou client) st1 of
             (Inl message, st2) \<Rightarrow> Some (Some message, st2)
           | (Inr users, st2) \<Rightarrow>
               (let st3 = st2\<lparr>run_stats := (run_stats st2)
                               \<lparr>totalUsers := totalUsers (run_stats st2) + length users\<rparr>\<rparr>
                in case batchSize w of
                     None \<Rightarrow>
                       (if 0 < length users
                        then Some (None, processBatch w (id_c dbClient) [] st3)
                        else Some (None, st3))
                   | Some bsize \<Rightarrow>
                       map_option (\<lambda>st4. (None, st4))
                         (batchLoop w (id_c dbClient) users bsize 0 st3))))"

text \<open>The loop over the clients in \<open>migrate\<close>, with its \<open>try\<close> and \<open>catch\<close>.\<close>

fun clientLoop :: "World \<Rightarrow> ClientOU list \<Rightarrow> Sys \<Rightarrow> Sys option" where
  "clientLoop w [] st = Some st"
| "clientLoop w (client # rest) st =
     (case processClient w client st of
        None \<Rightarrow> None
      | Some (None, st1) \<Rightarrow>
          clientLoop w rest
            (st1\<lparr>run_stats := (run_stats st1)
                   \<lparr>successfulClients := successfulClients (run_stats st1) + 1\<rparr>\<rparr>)
      | Some (Some message, st1) \<Rightarrow>
          clientLoop w rest
            (st1\<lparr>run_stats := (run_stats st1)
                   \<lparr>failedClients := failedClients (run_stats st1) + 1,
                    errors := errors (run_stats st1) @
                                [''Client '' @ ou client @ '': '' @ message]\<rparr>\<rparr>))"

definition initialStats :: MigrationStats where
  "initialStats =
     \<lparr>totalClients = 0, totalUsers = 0, successfulClients = 0, successfulUsers = 0,
      failedClients = 0, failedUsers = 0, errors = []\<rparr>"

text \<open>
  \<open>migrate\<close>: \<open>Inl message\<close> is the error rethrown to the caller, \<open>Inr result\<close> the
  returned \<open>MigrationResult\<close>; the \<open>finally\<close> block runs \<open>disconnect\<close> on both.
\<close>

definition migrate :: "World \<Rightarrow> Sys \<Rightarrow> ((string + MigrationResult) \<times> Sys) option" where
  "migrate w st0 =
     (let st = st0\<lparr>run_stats := initialStats\<rparr>
      in case connect w st of
           (Inl message, st1) \<Rightarrow> Some (Inl message, disconnect w st1)
         | (Inr u1, st1) \<Rightarrow>
             (case initializeTables w st1 of
                (Inl message, st2) \<Rightarrow> Some (Inl message, disconnect w st2)
              | (Inr u2, st2) \<Rightarrow>
                  (case searchClients w st2 of
                     (Inl message, st3) \<Rightarrow> Some (Inl message, disconnect w st3)
                   | (Inr clients, st3) \<Rightarrow>
                       (case clientLoop w clients
                               (st3\<lparr>run_stats := (run_stats st3)
                                      \<lparr>totalClients := length clients\<rparr>\<rparr>) of
                          None \<Rightarrow> None
                        | Some st4 \<Rightarrow>
                            (let result =
                                   \<lparr>success = (failedClients (run_stats st4) = 0 \<and>
                                               failedUsers (run_stats st4) = 0),
                                    stats = run_stats st4,
                                    duration = endTime w - startTime w,
                                    dryRun_r = dryRun w\<rparr>;
                                 st5 = logMigrationRun w (run_stats st4) st4
                             in Some (Inr result, disconnect w st5))))))"

text \<open>
  \<open>bootstrap\<close> (src/main.ts) without \<open>--validate-config\<close>: it runs \<open>migrate\<close> and
  leaves through \<open>process.exit\<close>, with the code 0 for a successful result and 1 for any
  other result and for a rethrown error. It never closes the application context, so
  the hook \<open>onModuleDestroy\<close> of \<open>DatabaseService\<close> is not run. The result is the exit
  code and the state in which the process exits.
\<close>

definition bootstrap :: "World \<Rightarrow> Sys \<Rightarrow> (int \<times> Sys) option" where
  "bootstrap w st =
     (case migrate w st of
        None \<Rightarrow> None
      | Some (Inl message, st1) \<Rightarrow> Some (1, st1)
      | Some (Inr result, st1) \<Rightarrow> Some (if success result then 0 else 1, st1))"

section \<open>A directory and a store to run the code on\<close>

text \<open>
  Two clients: \<open>clientA\<close> with \<open>user1\<close> and \<open>user2\<close>, \<open>clientB\<close> with \<open>user3\<close>;
  \<open>user2\<close> has neither mail nor password.
\<close>

definition userEntry :: "string \<Rightarrow> string \<Rightarrow> string \<Rightarrow> string \<Rightarrow> SearchEntry" where
  "userEntry u client m pw =
     \<lparr>entry_dn = ''uid='' @ u @ '',ou='' @ client @ '',ou=clients,dc=example,dc=com'',
      attributes = [(''uid'', [u]), (''mail'', [m]), (''userPassword'', [pw])]\<rparr>"

definition clientEntry :: "string \<Rightarrow> SearchEntry" where
  "clientEntry client =
     \<lparr>entry_dn = ''ou='' @ client @ '',ou=clients,dc=example,dc=com'',
      attributes = [(''ou'', [client])]\<rparr>"

definition exampleUsers :: "string \<Rightarrow> string + SearchEntry list" where
  "exampleUsers clientOU =
     (if clientOU = ''clientA''
      then Inr [userEntry ''user1'' ''clientA'' ''a@x.com'' ''{SSHA}abc'',
                userEntry ''user2'' ''clientA'' [] []]
      else if clientOU = ''clientB''
      then Inr [userEntry ''user3'' ''clientB'' ''b@x.com'' ''{MD5}def'']
      else Inl ''No such object'')"

definition exampleWorld :: World where
  "exampleWorld =
     \<lparr>dryRun = False,
      batchSize = Some 100,
      bindFault = None,
      unbindFault = None,
      ddlFault = None,
      clientSearch = Inr [clientEntry ''clientA'', clientEntry ''clientB''],
      userSearch = exampleUsers,
      clientRepoFault = (\<lambda>clientId. None),
      userRepoFault = (\<lambda>clientId u. None),
      logInsertFault = None,
      bcryptHash = (\<lambda>password. Inr (''$2b$12$'' @ password)),
      mathRandom = (\<lambda>d i. i),
      startTime = 1000,
      endTime = 1250\<rparr>"

definition emptySys :: Sys where
  "emptySys =
     \<lparr>clients_table = [], users_table = [], migration_log = [], next_id = 1,
      isConnected = False, dataSourceInitialized = True, run_stats = initialStats,
      calls = []\<rparr>"

text \<open>The same directory, with one of the settings or one of the external answers changed.\<close>

definition dryRunWorld :: World where
  "dryRunWorld = exampleWorld\<lparr>dryRun := True\<rparr>"

definition nanBatchWorld :: World where
  "nanBatchWorld = exampleWorld\<lparr>batchSize := None\<rparr>"

definition lostSummaryWorld :: World where
  "lostSummaryWorld = exampleWorld\<lparr>logInsertFault := Some ''relation does not exist''\<rparr>"

definition brokenClientWorld :: World where
  "brokenClientWorld =
     exampleWorld\<lparr>clientRepoFault :=
       (\<lambda>clientId. if clientId = ''clientA'' then Some ''connection reset'' else None)\<rparr>"

definition duplicateKeyWorld :: World where
  "duplicateKeyWorld =
     exampleWorld\<lparr>userRepoFault :=
       (\<lambda>clientId u. if u = ''user2'' then Some ''duplicate key value'' else None)\<rparr>"

definition unreachableWorld :: World where
  "unreachableWorld = exampleWorld\<lparr>bindFault := Some ''connect ECONNREFUSED''\<rparr>"

definition missingBaseWorld :: World where
  "missingBaseWorld = exampleWorld\<lparr>clientSearch := Inl ''No Such Object''\<rparr>"

definition rerunWorld :: World where
  "rerunWorld = exampleWorld\<lparr>mathRandom := (\<lambda>d i. i + 26)\<rparr>"

definition exampleClients :: "ClientOU list" where
  "exampleClients = map toClientOU [clientEntry ''clientA'', clientEntry ''clientB'']"

definition exampleBatch :: "UserData list" where
  "exampleBatch =
     map toUserData
       [userEntry ''user1'' ''clientA'' ''a@x.com'' ''{SSHA}abc'',
        userEntry ''user2'' ''clientA'' [] [],
        userEntry ''user3'' ''clientA'' ''b@x.com'' ''{MD5}def'']"

definition connectedSys :: Sys where
  "connectedSys = emptySys\<lparr>isConnected := True\<rparr>"

text \<open>A store that holds \<open>user1\<close> of the client with key 1, and a new reading of that user.\<close>

definition storedUser1 :: User where
  "storedUser1 =
     \<lparr>id_u = 2, client_id_u = 1, username = ''user1'', first_name = Some ''Ann'',
      last_name = Some ''Lee'', email = Some ''a@x.com'', password_hash = Some ''$2b$12$old'',
      ldap_dn = ''uid=user1,ou=clientA,ou=clients,dc=example,dc=com''\<rparr>"

definition oneUserSys :: Sys where
  "oneUserSys =
     emptySys\<lparr>clients_table := [\<lparr>id_c = 1, client_id_c = ''clientA'', name_c = None\<rparr>],
              users_table := [storedUser1], next_id := 3\<rparr>"

definition user1Reading :: DbUserData where
  "user1Reading =
     \<lparr>uid = ''user1'', givenName = ''Anna'', sn = [], mail = [], userPassword = [],
      dn = ''uid=user1,ou=clientA,ou=clients,dc=example,dc=com'', password_hash_d = None\<rparr>"

section \<open>Notions used to state the properties\<close>

text \<open>A user whose upsert the repository rejects, and the message that is recorded for it.\<close>

definition userFails :: "World \<Rightarrow> nat \<Rightarrow> UserData \<Rightarrow> bool" where
  "userFails w clientId user = (userRepoFault w clientId (uid user) \<noteq> None)"

definition userError :: "World \<Rightarrow> nat \<Rightarrow> UserData \<Rightarrow> string" where
  "userError w clientId user =
     ''User '' @ uid user @ '': User upsert failed for '' @ uid user @ '': '' @
     (case userRepoFault w clientId (uid user) of None \<Rightarrow> [] | Some msg \<Rightarrow> msg)"

text \<open>Every user counted once and every failure with one message.\<close>

definition tallied :: "MigrationStats \<Rightarrow> bool" where
  "tallied s =
     (totalUsers s = successfulUsers s + failedUsers s \<and>
      length (errors s) = failedClients s + failedUsers s)"

text \<open>
  The batches as the specification describes them: the users in the order returned, cut
  into contiguous pieces of the batch size, the last one possibly shorter.
\<close>

fun contiguousBatches :: "nat \<Rightarrow> 'a list \<Rightarrow> 'a list list" where
  "contiguousBatches n xs =
     (if n = 0 \<or> xs = [] then [] else take n xs # contiguousBatches n (drop n xs))"

text \<open>Two runs of \<open>migrate\<close>, the second on the state that the first one left.\<close>

definition migrateTwice ::
  "World \<Rightarrow> World \<Rightarrow> Sys \<Rightarrow>
   ((string + MigrationResult) \<times> Sys \<times> (string + MigrationResult) \<times> Sys) option" where
  "migrateTwice w1 w2 st =
     (case migrate w1 st of
        None \<Rightarrow> None
      | Some (r1, st1) \<Rightarrow>
          (case migrate w2 st1 of
             None \<Rightarrow> None
           | Some (r2, st2) \<Rightarrow> Some (r1, st1, r2, st2)))"

text \<open>The composite keys (group, username) of the stored users.\<close>

definition storedUsers :: "Sys \<Rightarrow> (nat \<times> string) list" where
  "storedUsers st = map (\<lambda>u. (client_id_u u, username u)) (users_table st)"

text \<open>The identifying columns of the user rows, in the order of the table.\<close>

definition userKeys :: "Sys \<Rightarrow> (nat \<times> nat \<times> string) list" where
  "userKeys st = map (\<lambda>u. (id_u u, client_id_u u, username u)) (users_table st)"

text \<open>
  What the directory holds, as \<open>searchClients\<close> and \<open>searchUsers\<close> return it (nothing
  when the search fails).
\<close>

definition directoryClients :: "World \<Rightarrow> ClientOU list" where
  "directoryClients w =
     (case clientSearch w of
        Inl msg \<Rightarrow> []
      | Inr searchEntries \<Rightarrow>
          filter (\<lambda>client. ou client \<noteq> [] \<and> ou client \<noteq> ''clients'')
            (map toClientOU searchEntries))"

definition directoryUsers :: "World \<Rightarrow> string \<Rightarrow> UserData list" where
  "directoryUsers w clientOU =
     (case userSearch w clientOU of
        Inl msg \<Rightarrow> []
      | Inr searchEntries \<Rightarrow> filter (\<lambda>user. uid user \<noteq> []) (map toUserData searchEntries))"

text \<open>Two worlds with the same directory: an unchanged source.\<close>

definition sameDirectory :: "World \<Rightarrow> World \<Rightarrow> bool" where
  "sameDirectory w1 w2 =
     (clientSearch w1 = clientSearch w2 \<and>
      (\<forall>client \<in> set (directoryClients w1).
         userSearch w1 (ou client) = userSearch w2 (ou client)))"

text \<open>
  A world in which no external call fails: the bind, the creation of the tables, the
  searches for the clients and for the users of each client found, and every call of the
  repositories; and in which the batch size is positive.
\<close>

definition faultless :: "World \<Rightarrow> bool" where
  "faultless w =
     (bindFault w = None \<and> ddlFault w = None \<and> \<not> isl (clientSearch w) \<and>
      (\<forall>client \<in> set (directoryClients w). \<not> isl (userSearch w (ou client))) \<and>
      (\<forall>clientId. clientRepoFault w clientId = None) \<and>
      (\<forall>clientId u. userRepoFault w clientId u = None) \<and>
      (\<exists>b. batchSize w = Some b \<and> 0 < b))"

text \<open>The generated key of the row that \<open>findOne\<close> returns for a client, if there is one.\<close>

definition clientIdOf :: "Sys \<Rightarrow> string \<Rightarrow> nat option" where
  "clientIdOf st clientId =
     map_option (\<lambda>i. id_c (clients_table st ! i))
       (findIndex (\<lambda>c. client_id_c c = clientId) (clients_table st))"

text \<open>
  The store holds a row for each of the given clients and for each user that the
  directory of the world lists under it.
\<close>

definition covered :: "Sys \<Rightarrow> World \<Rightarrow> ClientOU list \<Rightarrow> bool" where
  "covered st w clients =
     (\<forall>client \<in> set clients.
        \<exists>cid. clientIdOf st (ou client) = Some cid \<and>
          (\<forall>user \<in> set (directoryUsers w (ou client)). (cid, uid user) \<in> set (storedUsers st)))"

text \<open>
  The second store has kept the rows of the first: the keys of the clients are found as
  before, and the user rows of the first are the first user rows of the second.
\<close>

definition keepsRows :: "Sys \<Rightarrow> Sys \<Rightarrow> bool" where
  "keepsRows st st' =
     ((\<forall>clientId cid. clientIdOf st clientId = Some cid \<longrightarrow> clientIdOf st' clientId = Some cid) \<and>
      (\<exists>more. userKeys st' = userKeys st @ more))"

text \<open>The object \<open>dbUserData\<close> that \<open>processUser\<close> passes to \<open>upsertUser\<close>.\<close>

definition preparedUser :: "World \<Rightarrow> UserData \<Rightarrow> DbUserData" where
  "preparedUser w userData =
     \<lparr>uid = uid userData, givenName = givenName userData, sn = sn userData,
      mail = mail userData, userPassword = userPassword userData, dn = dn userData,
      password_hash_d =
        (if userPassword userData \<noteq> []
         then convertLdapPassword (bcryptHash w) (mathRandom w (dn userData))
                (userPassword userData)
         else None)\<rparr>"

text \<open>A user row with its target credential blanked: every column but the credential.\<close>

definition withoutCredential :: "User \<Rightarrow> User" where
  "withoutCredential u = u\<lparr>password_hash := None\<rparr>"

text \<open>
  Three stores during two runs that are compared step by step: \<open>first\<close> is the store of
  the first run at some point, \<open>second\<close> the store of the second run at the same point,
  and \<open>final\<close> the store that the first run ends with. In a column, each row of the
  second store agrees with the row of the first store, or has still the value it has in
  the final store.
\<close>

definition sameColumn :: "(User \<Rightarrow> 'a) \<Rightarrow> Sys \<Rightarrow> Sys \<Rightarrow> Sys \<Rightarrow> bool" where
  "sameColumn f first second final =
     (\<forall>p < length (users_table final).
        (p < length (users_table first) \<and>
         f (users_table second ! p) = f (users_table first ! p)) \<or>
        f (users_table second ! p) = f (users_table final ! p))"

definition follows :: "Sys \<Rightarrow> Sys \<Rightarrow> Sys \<Rightarrow> bool" where
  "follows first second final =
     (clients_table second = clients_table final \<and>
      userKeys second = userKeys final \<and>
      sameColumn first_name first second final \<and>
      sameColumn last_name first second final \<and>
      sameColumn email first second final \<and>
      sameColumn ldap_dn first second final)"

section \<open>Facts about the hash converter\<close>

lemma truthy_Some [simp]: "truthy (Some s) = (s \<noteq> [])"
  by (simp add: truthy_def)

lemma truthy_None [simp]: "\<not> truthy None"
  by (simp add: truthy_def)

lemma firstMatch_nonempty: "firstMatch ps s = Some m \<Longrightarrow> m \<noteq> []"
  by (induction ps) (auto simp: matchTagged_def Let_def split: option.splits if_splits)

lemma extractHashFromLdap_truthy: "s \<noteq> [] \<Longrightarrow> truthy (extractHashFromLdap s)"
  by (auto simp: extractHashFromLdap_def split: option.splits dest: firstMatch_nonempty)

lemma convertLdapPassword_nonempty:
  "s \<noteq> [] \<Longrightarrow> hash (generateRandomPassword rnd) = Inr h \<Longrightarrow>
   convertLdapPassword hash rnd s = Some h"
  by (simp add: convertLdapPassword_def Let_def extractHashFromLdap_truthy)

lemma convertLdapPassword_empty: "convertLdapPassword hash rnd [] = None"
  by (simp add: convertLdapPassword_def)

lemma generateRandomPassword_id: "generateRandomPassword (\<lambda>i. i) = ''ABCDEFGHIJKL''"
  by code_simp

lemma generateRandomPassword_shift: "generateRandomPassword (\<lambda>i. i + 26) = ''abcdefghijkl''"
  by code_simp

section \<open>The batch loop\<close>

lemma slice_pos: "0 \<le> i \<Longrightarrow> 0 < b \<Longrightarrow> slice xs i (i + b) = take (nat b) (drop (nat i) xs)"
  by (auto simp: slice_def relIndex_def Let_def min_def max_def nat_diff_distrib nat_add_distrib)

lemma processBatch_append:
  "processBatch w c (xs @ ys) st = processBatch w c ys (processBatch w c xs st)"
  by (simp add: processBatch_def)

lemma batchLoop_pos:
  "0 < b \<Longrightarrow> 0 \<le> i \<Longrightarrow>
   batchLoop w c us b i st = Some (processBatch w c (drop (nat i) us) st)"
proof (induction "length us - nat i" arbitrary: i st rule: less_induct)
  case less
  show ?case
  proof (cases "i < int (length us)")
    case True
    have m: "length us - nat (i + b) < length us - nat i"
      using True less.prems by linarith
    have ih: "batchLoop w c us b (i + b) (processBatch w c (slice us i (i + b)) st)
          = Some (processBatch w c (drop (nat (i + b)) us) (processBatch w c (slice us i (i + b)) st))"
      using less.hyps [OF m] less.prems by simp
    have d: "drop (nat (i + b)) us = drop (nat b) (drop (nat i) us)"
      using less.prems by (simp add: nat_add_distrib add.commute)
    have s: "slice us i (i + b) = take (nat b) (drop (nat i) us)"
      using less.prems by (simp add: slice_pos)
    have "processBatch w c (drop (nat (i + b)) us) (processBatch w c (slice us i (i + b)) st)
        = processBatch w c (take (nat b) (drop (nat i) us) @ drop (nat b) (drop (nat i) us)) st"
      unfolding processBatch_append d s ..
    also have "\<dots> = processBatch w c (drop (nat i) us) st"
      unfolding append_take_drop_id ..
    finally have e: "processBatch w c (drop (nat (i + b)) us) (processBatch w c (slice us i (i + b)) st)
        = processBatch w c (drop (nat i) us) st" .
    have "batchLoop w c us b i st
        = batchLoop w c us b (i + b) (processBatch w c (slice us i (i + b)) st)"
      using True by (subst batchLoop.simps) simp
    then show ?thesis
      unfolding ih e .
  next
    case False
    then show ?thesis
      by (subst batchLoop.simps) (simp add: processBatch_def)
  qed
qed

lemma batchLoop_returns_aux:
  assumes "batchLoop w c us b i st = Some y"
  shows "b \<le> 0 \<longrightarrow> \<not> i < int (length us) \<and> y = st"
  by (rule batchLoop.raw_induct
        [OF _ assms, where P = "\<lambda>w c us b i st y. b \<le> 0 \<longrightarrow> \<not> i < int (length us) \<and> y = st"])
     (fastforce split: if_splits)

lemma batchLoop_returns:
  "batchLoop w c us b i st = Some y \<Longrightarrow> b \<le> 0 \<Longrightarrow> \<not> i < int (length us) \<and> y = st"
  using batchLoop_returns_aux by blast

section \<open>Processing one user and one batch\<close>

lemmas svc_defs = connect_def disconnect_def initializeTables_def searchClients_def
  searchUsers_def upsertClient_def upsertUser_def logMigrationRun_def called_def Let_def

declare contiguousBatches.simps [simp del]

lemma processBatch_Nil [simp]: "processBatch w c [] st = st"
  by (simp add: processBatch_def)

lemma processBatch_Cons [simp]:
  "processBatch w c (u # us) st = processBatch w c us (processUser w u c st)"
  by (simp add: processBatch_def)

lemma processUser_stats:
  "run_stats (processUser w u c st) =
     (if userFails w c u
      then (run_stats st)\<lparr>failedUsers := failedUsers (run_stats st) + 1,
                          errors := errors (run_stats st) @ [userError w c u]\<rparr>
      else (run_stats st)\<lparr>successfulUsers := successfulUsers (run_stats st) + 1\<rparr>)"
  by (auto simp: processUser_def userFails_def userError_def svc_defs split: option.splits)

lemma processUser_calls:
  "calls (processUser w u c st) = calls st @ [UpsertUserCall c (uid u)]"
  by (auto simp: processUser_def svc_defs split: option.splits)

lemma processUser_frame:
  "clients_table (processUser w u c st) = clients_table st"
  "migration_log (processUser w u c st) = migration_log st"
  "isConnected (processUser w u c st) = isConnected st"
  "dataSourceInitialized (processUser w u c st) = dataSourceInitialized st"
  by (auto simp: processUser_def svc_defs split: option.splits)

lemma findIndex_Some: "findIndex P xs = Some i \<Longrightarrow> i < length xs \<and> P (xs ! i)"
  by (induction xs arbitrary: i) (auto split: if_splits)

lemma findIndex_None: "findIndex P xs = None \<longleftrightarrow> (\<forall>x \<in> set xs. \<not> P x)"
  by (induction xs) auto

lemma updateUser_key [simp]:
  "id_u (updateUser d r) = id_u r"
  "client_id_u (updateUser d r) = client_id_u r"
  "username (updateUser d r) = username r"
  by (simp_all add: updateUser_def)

lemma createUser_key [simp]:
  "id_u (createUser n d c) = n"
  "client_id_u (createUser n d c) = c"
  "username (createUser n d c) = uid d"
  by (simp_all add: createUser_def)

lemma upsertUser_fault:
  "userRepoFault w c (uid d) = Some m \<Longrightarrow>
   upsertUser w d c st =
     (Inl (''User upsert failed for '' @ uid d @ '': '' @ m), called (UpsertUserCall c (uid d)) st)"
  by (simp add: upsertUser_def Let_def)

lemma upsertUser_found:
  "userRepoFault w c (uid d) = None \<Longrightarrow>
   findIndex (\<lambda>r. client_id_u r = c \<and> username r = uid d) (users_table st) = Some i \<Longrightarrow>
   upsertUser w d c st =
     (Inr (updateUser d (users_table st ! i)),
      (called (UpsertUserCall c (uid d)) st)
        \<lparr>users_table := (users_table st)[i := updateUser d (users_table st ! i)]\<rparr>)"
  by (simp add: upsertUser_def Let_def called_def)

lemma upsertUser_new:
  "userRepoFault w c (uid d) = None \<Longrightarrow>
   findIndex (\<lambda>r. client_id_u r = c \<and> username r = uid d) (users_table st) = None \<Longrightarrow>
   upsertUser w d c st =
     (Inr (createUser (next_id st) d c),
      (called (UpsertUserCall c (uid d)) st)
        \<lparr>users_table := users_table st @ [createUser (next_id st) d c],
         next_id := next_id st + 1\<rparr>)"
  by (simp add: upsertUser_def Let_def called_def)

lemma upsertUser_stored:
  assumes "userRepoFault w c (uid d) = None"
  shows "\<exists>r \<in> set (users_table (snd (upsertUser w d c st))). client_id_u r = c \<and> username r = uid d"
proof (cases "findIndex (\<lambda>r. client_id_u r = c \<and> username r = uid d) (users_table st)")
  case None
  then show ?thesis
    using assms by (simp add: upsertUser_new)
next
  case (Some i)
  then have i: "i < length (users_table st)"
    and k: "client_id_u (users_table st ! i) = c \<and> username (users_table st ! i) = uid d"
    by (auto dest: findIndex_Some)
  have "updateUser d (users_table st ! i) \<in> set ((users_table st)[i := updateUser d (users_table st ! i)])"
    using i by (rule set_update_memI)
  moreover have "client_id_u (updateUser d (users_table st ! i)) = c
      \<and> username (updateUser d (users_table st ! i)) = uid d"
    using k by simp
  ultimately have "\<exists>r \<in> set ((users_table st)[i := updateUser d (users_table st ! i)]).
      client_id_u r = c \<and> username r = uid d"
    by blast
  then show ?thesis
    using assms Some by (simp add: upsertUser_found)
qed

lemma processUser_stored:
  "\<not> userFails w c u \<Longrightarrow>
   \<exists>r \<in> set (users_table (processUser w u c st)). client_id_u r = c \<and> username r = uid u"
proof -
  assume "\<not> userFails w c u"
  then have f: "userRepoFault w c (uid u) = None"
    by (simp add: userFails_def)
  let ?d = "\<lparr>uid = uid u, givenName = givenName u, sn = sn u, mail = mail u,
             userPassword = userPassword u, dn = dn u,
             password_hash_d = (if userPassword u \<noteq> []
               then convertLdapPassword (bcryptHash w) (mathRandom w (dn u)) (userPassword u)
               else None)\<rparr>"
  have "\<exists>r \<in> set (users_table (snd (upsertUser w ?d c st))). client_id_u r = c \<and> username r = uid ?d"
    by (rule upsertUser_stored) (simp add: f)
  then show ?thesis
    by (auto simp: processUser_def Let_def split: prod.splits sum.splits)
qed

lemma findIndex_storedUsers:
  "findIndex (\<lambda>r. client_id_u r = c \<and> username r = n) (users_table st) = None
   \<longleftrightarrow> (c, n) \<notin> set (storedUsers st)"
  by (auto simp: findIndex_None storedUsers_def)

lemma map_update_same: "i < length xs \<Longrightarrow> f y = f (xs ! i) \<Longrightarrow> map f (xs[i := y]) = map f xs"
  by (simp add: map_update list_update_same_conv)

lemma upsertUser_userKeys:
  "userKeys (snd (upsertUser w d c st)) =
     (if userRepoFault w c (uid d) \<noteq> None \<or> (c, uid d) \<in> set (storedUsers st)
      then userKeys st else userKeys st @ [(next_id st, c, uid d)])"
proof (cases "userRepoFault w c (uid d)")
  case (Some m)
  then show ?thesis
    by (simp add: upsertUser_fault userKeys_def called_def)
next
  case None
  show ?thesis
  proof (cases "findIndex (\<lambda>r. client_id_u r = c \<and> username r = uid d) (users_table st)")
    case N: None
    then have "(c, uid d) \<notin> set (storedUsers st)"
      by (simp add: findIndex_storedUsers)
    then show ?thesis
      using None N by (simp add: upsertUser_new userKeys_def called_def)
  next
    case (Some i)
    then have "(c, uid d) \<in> set (storedUsers st)"
      using findIndex_storedUsers [of c "uid d" st] by simp
    moreover have "i < length (users_table st)"
      using Some by (auto dest: findIndex_Some)
    ultimately show ?thesis
      using None Some by (simp add: upsertUser_found userKeys_def called_def map_update_same)
  qed
qed

lemma userKeys_run_stats [simp]: "userKeys (st\<lparr>run_stats := r\<rparr>) = userKeys st"
  by (simp add: userKeys_def)

lemma storedUsers_run_stats [simp]: "storedUsers (st\<lparr>run_stats := r\<rparr>) = storedUsers st"
  by (simp add: storedUsers_def)

lemma storedUsers_userKeys: "storedUsers st = map snd (userKeys st)"
  by (simp add: storedUsers_def userKeys_def)

lemma processUser_userKeys:
  "userKeys (processUser w u c st) =
     (if userFails w c u \<or> (c, uid u) \<in> set (storedUsers st)
      then userKeys st else userKeys st @ [(next_id st, c, uid u)])"
proof -
  let ?d = "\<lparr>uid = uid u, givenName = givenName u, sn = sn u, mail = mail u,
             userPassword = userPassword u, dn = dn u,
             password_hash_d = (if userPassword u \<noteq> []
               then convertLdapPassword (bcryptHash w) (mathRandom w (dn u)) (userPassword u)
               else None)\<rparr>"
  have "userKeys (processUser w u c st) = userKeys (snd (upsertUser w ?d c st))"
    by (auto simp: processUser_def Let_def split: prod.splits sum.splits)
  then show ?thesis
    by (simp add: upsertUser_userKeys userFails_def)
qed

lemma processUser_keeps:
  "k \<in> set (storedUsers st) \<Longrightarrow> k \<in> set (storedUsers (processUser w u c st))"
  by (auto simp: storedUsers_userKeys processUser_userKeys)

lemma processUser_stores:
  "\<not> userFails w c u \<Longrightarrow> (c, uid u) \<in> set (storedUsers (processUser w u c st))"
  by (auto simp: storedUsers_userKeys processUser_userKeys)

lemma processBatch_keeps:
  "k \<in> set (storedUsers st) \<Longrightarrow> k \<in> set (storedUsers (processBatch w c b st))"
  by (induction b arbitrary: st) (auto intro: processUser_keeps)

lemma processBatch_stores:
  "u \<in> set b \<Longrightarrow> \<not> userFails w c u \<Longrightarrow> (c, uid u) \<in> set (storedUsers (processBatch w c b st))"
  by (induction b arbitrary: st) (auto intro: processUser_stores processBatch_keeps)

lemma processBatch_stats:
  "run_stats (processBatch w c b st) =
     (run_stats st)
       \<lparr>successfulUsers := successfulUsers (run_stats st) + length (filter (\<lambda>u. \<not> userFails w c u) b),
        failedUsers := failedUsers (run_stats st) + length (filter (userFails w c) b),
        errors := errors (run_stats st) @ map (userError w c) (filter (userFails w c) b)\<rparr>"
  by (induction b arbitrary: st) (simp_all add: processUser_stats)

lemma processBatch_calls:
  "calls (processBatch w c b st) = calls st @ map (\<lambda>u. UpsertUserCall c (uid u)) b"
  by (induction b arbitrary: st) (simp_all add: processUser_calls)

lemma processBatch_frame:
  "clients_table (processBatch w c b st) = clients_table st"
  "migration_log (processBatch w c b st) = migration_log st"
  "isConnected (processBatch w c b st) = isConnected st"
  "dataSourceInitialized (processBatch w c b st) = dataSourceInitialized st"
  by (induction b arbitrary: st) (simp_all add: processUser_frame)

lemma concat_contiguousBatches: "0 < n \<Longrightarrow> concat (contiguousBatches n xs) = xs"
proof (induction n xs rule: contiguousBatches.induct)
  case (1 n xs)
  then show ?case
    by (subst contiguousBatches.simps) auto
qed

lemma foldl_processBatch:
  "foldl (\<lambda>s batch. processBatch w c batch s) st bs = processBatch w c (concat bs) st"
  by (induction bs arbitrary: st) (simp_all add: processBatch_append)

lemma batchLoop_batches:
  assumes "0 < b"
  shows "batchLoop w c us b 0 st =
         Some (foldl (\<lambda>s batch. processBatch w c batch s) st (contiguousBatches (nat b) us))"
  using assms by (simp add: batchLoop_pos foldl_processBatch concat_contiguousBatches)

section \<open>Running the code on the example directory\<close>

lemmas eval_defs = migrate_def processClient_def processUser_def svc_defs
  exampleWorld_def emptySys_def exampleUsers_def userEntry_def clientEntry_def
  toClientOU_def toUserData_def firstValue_def initialStats_def batchLoop_pos
  updateUser_def createUser_def convertLdapPassword_def extractHashFromLdap_def
  patterns_def matchTagged_def lineTerminator_def summaryRow_def js_or_def

section \<open>The claims\<close>

subsection \<open>The hash converter\<close>

text \<open>
  Claim C2 says that \<open>convertLdapPassword\<close> returns \<open>null\<close> for an input that begins with
  none of the recognized tags. The documentation of \<open>extractHashFromLdap\<close> promises
  \<open>null\<close> for an unsupported format and \<open>convertLdapPassword\<close> has a branch for it, but
  \<open>extractHashFromLdap\<close> returns its argument when no pattern matches. The string
  \<open>plaintext\<close>, which \<open>isLdapHash\<close> rejects, is given a generated credential.
\<close>

theorem unrecognized_input_is_converted:
  "isLdapHash ''plaintext'' = False \<and>
   convertLdapPassword (bcryptHash exampleWorld) (\<lambda>i. i) ''plaintext'' =
     Some ''$2b$12$ABCDEFGHIJKL''"
  by (simp add: isLdapHash_def patterns_def convertLdapPassword_def extractHashFromLdap_def
      matchTagged_def exampleWorld_def generateRandomPassword_id)

subsection \<open>Dry run\<close>

text \<open>
  Claim C1 says that a dry run leaves the row counts of the store as they were and
  records \<open>dry_run = true\<close>. \<open>migrate\<close> reads the setting only to copy it into the
  returned result: on the example directory and the empty store a dry run leaves two
  client rows and three user rows, and the one summary it writes has \<open>dry_run = false\<close>.
\<close>

theorem dry_run_writes_to_the_store:
  "map_option (\<lambda>(res, st). (length (clients_table st), length (users_table st),
                              map dry_run (migration_log st)))
     (migrate dryRunWorld emptySys) = Some (2, 3, [False])
   \<and> length (clients_table emptySys) = 0 \<and> length (users_table emptySys) = 0"
  by (simp add: dryRunWorld_def eval_defs)

subsection \<open>The success flag\<close>

text \<open>
  Claim C7: in the result that \<open>migrate\<close> returns, \<open>success\<close> is true exactly when the
  count of failed clients and the count of failed users are both zero.
\<close>

theorem success_iff_no_failures:
  "migrate w st = Some (Inr r, st') \<Longrightarrow>
   success r = (failedClients (stats r) = 0 \<and> failedUsers (stats r) = 0)"
  by (auto simp: migrate_def Let_def split: prod.splits sum.splits option.splits)

lemma duplicate_key_run_returns:
  "\<exists>r st'. migrate duplicateKeyWorld emptySys = Some (Inr r, st') \<and> failedUsers (stats r) = 1"
  by (simp add: duplicateKeyWorld_def eval_defs)

theorem success_iff_no_failures_witness:
  "\<exists>r st'. migrate duplicateKeyWorld emptySys = Some (Inr r, st') \<and> \<not> success r
     \<and> failedUsers (stats r) = 1"
  using duplicate_key_run_returns success_iff_no_failures [of duplicateKeyWorld emptySys]
  by fastforce

subsection \<open>Merging on update\<close>

text \<open>
  Claim C4: when \<open>upsertUser\<close> finds the user already stored, each of given name, family
  name, email and target credential of the stored row becomes the incoming value when
  that value is not empty, and keeps its stored value when the incoming value is empty
  or absent. The row is written back in the place where it was found.
\<close>

theorem upsert_existing_user_merges:
  assumes "userRepoFault w c (uid d) = None"
    and "findIndex (\<lambda>r. client_id_u r = c \<and> username r = uid d) (users_table st) = Some i"
  shows "\<exists>user st'. upsertUser w d c st = (Inr user, st')
     \<and> users_table st' = (users_table st)[i := user]
     \<and> first_name user =
         (if givenName d \<noteq> [] then Some (givenName d) else first_name (users_table st ! i))
     \<and> last_name user =
         (if sn d \<noteq> [] then Some (sn d) else last_name (users_table st ! i))
     \<and> email user =
         (if mail d \<noteq> [] then Some (mail d) else email (users_table st ! i))
     \<and> password_hash user =
         (if password_hash_d d \<noteq> None \<and> password_hash_d d \<noteq> Some []
          then password_hash_d d else password_hash (users_table st ! i))"
  using assms
  by (cases "password_hash_d d")
     (simp_all add: upsertUser_found called_def updateUser_def js_or_def)

theorem upsert_existing_user_merges_witness:
  "\<exists>user st'. upsertUser exampleWorld user1Reading 1 oneUserSys = (Inr user, st')
     \<and> users_table st' = [user]
     \<and> first_name user = Some ''Anna'' \<and> last_name user = Some ''Lee''
     \<and> email user = Some ''a@x.com'' \<and> password_hash user = Some ''$2b$12$old''"
  using upsert_existing_user_merges [of exampleWorld 1 user1Reading oneUserSys 0]
  by (simp add: exampleWorld_def user1Reading_def oneUserSys_def storedUser1_def emptySys_def)

subsection \<open>Failures inside a batch\<close>


lemma exampleBatch_fails:
  "filter (userFails duplicateKeyWorld 1) exampleBatch = [exampleBatch ! 1]
   \<and> length (filter (\<lambda>u. \<not> userFails duplicateKeyWorld 1 u) exampleBatch) = 2
   \<and> map uid exampleBatch = [''user1'', ''user2'', ''user3'']"
  by (simp add: userFails_def duplicateKeyWorld_def exampleWorld_def exampleBatch_def
      toUserData_def userEntry_def firstValue_def)


section \<open>The loop over the clients\<close>

lemma upsertClient_frame:
  assumes "upsertClient w clientId name st = (r, st1)"
  shows "run_stats st1 = run_stats st" "migration_log st1 = migration_log st"
    "isConnected st1 = isConnected st" "dataSourceInitialized st1 = dataSourceInitialized st"
    "users_table st1 = users_table st"
  using assms by (auto simp: upsertClient_def Let_def called_def split: option.splits)

lemma searchUsers_state:
  "searchUsers w clientOU st = (r, st1) \<Longrightarrow> st1 = called (SearchUsersCall clientOU) st"
  by (auto simp: searchUsers_def Let_def split: if_splits sum.splits)

lemma batchLoop_Some:
  assumes "batchLoop w c us b 0 st = Some y"
  shows "y = processBatch w c us st"
proof (cases "0 < b")
  case True
  then show ?thesis
    using assms by (simp add: batchLoop_pos)
next
  case False
  then have "\<not> 0 < int (length us) \<and> y = st"
    using batchLoop_returns [OF assms] by simp
  then show ?thesis
    by simp
qed


text \<open>What a call of processClient that returns has done, for a batch size that is a number.\<close>

lemma processClient_returns:
  assumes "processClient w client st = Some (None, st')" and "batchSize w = Some b"
  shows "\<exists>dbClient st1 users.
           upsertClient w (ou client) None st = (Inr dbClient, st1)
         \<and> searchUsers w (ou client) st1 = (Inr users, called (SearchUsersCall (ou client)) st1)
         \<and> st' = processBatch w (id_c dbClient) users
                   ((called (SearchUsersCall (ou client)) st1)
                      \<lparr>run_stats := (run_stats st1)
                         \<lparr>totalUsers := totalUsers (run_stats st1) + length users\<rparr>\<rparr>)"
proof -
  obtain r1 st1 where u: "upsertClient w (ou client) None st = (r1, st1)"
    by (cases "upsertClient w (ou client) None st")
  obtain r2 st2 where s: "searchUsers w (ou client) st1 = (r2, st2)"
    by (cases "searchUsers w (ou client) st1")
  have st2: "st2 = called (SearchUsersCall (ou client)) st1"
    using s by (rule searchUsers_state)
  from assms u s obtain dbClient users where r: "r1 = Inr dbClient" "r2 = Inr users"
    by (auto simp: processClient_def split: sum.splits)
  have "batchLoop w (id_c dbClient) users b 0
          (st2\<lparr>run_stats := (run_stats st2)
                 \<lparr>totalUsers := totalUsers (run_stats st2) + length users\<rparr>\<rparr>) = Some st'"
    using assms u s r by (auto simp: processClient_def Let_def)
  then have "st' = processBatch w (id_c dbClient) users
          (st2\<lparr>run_stats := (run_stats st2)
                 \<lparr>totalUsers := totalUsers (run_stats st2) + length users\<rparr>\<rparr>)"
    by (rule batchLoop_Some)
  then show ?thesis
    using u s r st2 by (simp add: called_def)
qed

lemma processClient_throws:
  assumes "processClient w client st = Some (Some m, st')"
  shows "run_stats st' = run_stats st \<and> users_table st' = users_table st"
proof -
  obtain r1 st1 where u: "upsertClient w (ou client) None st = (r1, st1)"
    by (cases "upsertClient w (ou client) None st")
  obtain r2 st2 where s: "searchUsers w (ou client) st1 = (r2, st2)"
    by (cases "searchUsers w (ou client) st1")
  have st2: "st2 = called (SearchUsersCall (ou client)) st1"
    using s by (rule searchUsers_state)
  have "st' = st1 \<or> st' = st2"
    using assms u s
    by (auto simp: processClient_def Let_def split: sum.splits option.splits if_splits)
  then show ?thesis
    using upsertClient_frame [OF u] st2 by (auto simp: called_def)
qed

lemma processClient_frame:
  assumes "processClient w client st = Some (res, st')"
  shows "migration_log st' = migration_log st \<and> isConnected st' = isConnected st
       \<and> dataSourceInitialized st' = dataSourceInitialized st"
proof -
  obtain r1 st1 where u: "upsertClient w (ou client) None st = (r1, st1)"
    by (cases "upsertClient w (ou client) None st")
  obtain r2 st2 where s: "searchUsers w (ou client) st1 = (r2, st2)"
    by (cases "searchUsers w (ou client) st1")
  have st2: "st2 = called (SearchUsersCall (ou client)) st1"
    using s by (rule searchUsers_state)
  have "st' = st1 \<or> (\<exists>r. st' = st2\<lparr>run_stats := r\<rparr>)
        \<or> (\<exists>c users r. st' = processBatch w c users (st2\<lparr>run_stats := r\<rparr>))"
  proof (cases r1)
    case (Inl m)
    then show ?thesis
      using assms u by (simp add: processClient_def)
  next
    case r1: (Inr dbClient)
    show ?thesis
    proof (cases r2)
      case (Inl m)
      then have "st' = st2"
        using assms u s r1 by (simp add: processClient_def)
      then have "st' = st2\<lparr>run_stats := run_stats st2\<rparr>"
        by simp
      then show ?thesis
        by blast
    next
      case r2: (Inr users)
      show ?thesis
      proof (cases "batchSize w")
        case None
        then have "st' = st2\<lparr>run_stats := (run_stats st2)
                 \<lparr>totalUsers := totalUsers (run_stats st2) + length users\<rparr>\<rparr>"
          using assms u s r1 r2 by (simp add: processClient_def Let_def split: if_splits)
        then show ?thesis
          by blast
      next
        case (Some b)
        then have "batchLoop w (id_c dbClient) users b 0
            (st2\<lparr>run_stats := (run_stats st2)
                 \<lparr>totalUsers := totalUsers (run_stats st2) + length users\<rparr>\<rparr>) = Some st'"
          using assms u s r1 r2 by (auto simp: processClient_def Let_def)
        then have "st' = processBatch w (id_c dbClient) users
            (st2\<lparr>run_stats := (run_stats st2)
                 \<lparr>totalUsers := totalUsers (run_stats st2) + length users\<rparr>\<rparr>)"
          by (rule batchLoop_Some)
        then show ?thesis
          by blast
      qed
    qed
  qed
  then show ?thesis
    using upsertClient_frame [OF u] st2 by (auto simp: called_def processBatch_frame)
qed

lemma clientLoop_frame:
  "clientLoop w cs st = Some st' \<Longrightarrow>
   migration_log st' = migration_log st \<and> isConnected st' = isConnected st
   \<and> dataSourceInitialized st' = dataSourceInitialized st"
proof (induction cs arbitrary: st)
  case Nil
  then show ?case by simp
next
  case (Cons c cs)
  from Cons.prems obtain res st1 where p: "processClient w c st = Some (res, st1)"
    by (auto split: option.splits)
  show ?case
    using Cons.prems p processClient_frame [OF p] Cons.IH
    by (cases res) (auto split: option.splits)
qed

lemma processClient_tallied:
  assumes "processClient w client st = Some (None, st')" and "batchSize w = Some b"
    and "tallied (run_stats st)"
  shows "tallied (run_stats st') \<and> successfulClients (run_stats st') = successfulClients (run_stats st)
       \<and> failedClients (run_stats st') = failedClients (run_stats st)
       \<and> totalClients (run_stats st') = totalClients (run_stats st)"
proof -
  from processClient_returns [OF assms(1,2)] obtain dbClient st1 users where
      u: "upsertClient w (ou client) None st = (Inr dbClient, st1)"
    and st': "st' = processBatch w (id_c dbClient) users
                   ((called (SearchUsersCall (ou client)) st1)
                      \<lparr>run_stats := (run_stats st1)
                         \<lparr>totalUsers := totalUsers (run_stats st1) + length users\<rparr>\<rparr>)"
    by blast
  have l: "length (filter (\<lambda>u. \<not> userFails w (id_c dbClient) u) users)
         + length (filter (userFails w (id_c dbClient)) users) = length users"
    using sum_length_filter_compl [of "userFails w (id_c dbClient)" users] by simp
  show ?thesis
    using assms(3) upsertClient_frame(1) [OF u] l
    unfolding st' by (simp add: processBatch_stats tallied_def)
qed

lemma clientLoop_tallied:
  "clientLoop w cs st = Some st' \<Longrightarrow> batchSize w = Some b \<Longrightarrow> tallied (run_stats st) \<Longrightarrow>
   tallied (run_stats st')
   \<and> successfulClients (run_stats st') + failedClients (run_stats st')
       = successfulClients (run_stats st) + failedClients (run_stats st) + length cs
   \<and> totalClients (run_stats st') = totalClients (run_stats st)"
proof (induction cs arbitrary: st)
  case Nil
  then show ?case by simp
next
  case (Cons c cs)
  from Cons.prems(1) obtain res st1 where p: "processClient w c st = Some (res, st1)"
    by (auto split: option.splits)
  show ?case
  proof (cases res)
    case None
    let ?s = "st1\<lparr>run_stats := (run_stats st1)
                   \<lparr>successfulClients := successfulClients (run_stats st1) + 1\<rparr>\<rparr>"
    have t: "tallied (run_stats st1) \<and> successfulClients (run_stats st1) = successfulClients (run_stats st)
       \<and> failedClients (run_stats st1) = failedClients (run_stats st)
       \<and> totalClients (run_stats st1) = totalClients (run_stats st)"
      using processClient_tallied p None Cons.prems by blast
    have l: "clientLoop w cs ?s = Some st'"
      using Cons.prems(1) p None by simp
    have "tallied (run_stats ?s)"
      using t by (simp add: tallied_def)
    from Cons.IH [OF l Cons.prems(2) this] show ?thesis
      using t by simp
  next
    case (Some m)
    let ?s = "st1\<lparr>run_stats := (run_stats st1)
                   \<lparr>failedClients := failedClients (run_stats st1) + 1,
                    errors := errors (run_stats st1) @ [''Client '' @ ou c @ '': '' @ m]\<rparr>\<rparr>"
    have t: "run_stats st1 = run_stats st"
      using processClient_throws p Some by blast
    have l: "clientLoop w cs ?s = Some st'"
      using Cons.prems(1) p Some by simp
    have "tallied (run_stats ?s)"
      using t Cons.prems(3) by (simp add: tallied_def)
    from Cons.IH [OF l Cons.prems(2) this] show ?thesis
      using t by simp
  qed
qed

section \<open>The whole run\<close>

lemma disconnect_frame:
  "migration_log (disconnect w st) = migration_log st"
  "dataSourceInitialized (disconnect w st) = dataSourceInitialized st"
  "calls (disconnect w st) = calls st @ [DisconnectCall]"
  "unbindFault w = None \<Longrightarrow> \<not> isConnected (disconnect w st)"
  by (auto simp: disconnect_def called_def Let_def split: option.splits)

lemma processClient_terminates:
  assumes "\<And>b. batchSize w = Some b \<Longrightarrow> 0 < b"
  shows "\<exists>res st'. processClient w client st = Some (res, st')"
proof (cases "batchSize w")
  case None
  then show ?thesis
    by (auto simp: processClient_def Let_def split: prod.splits sum.splits)
next
  case (Some b)
  then have "0 < b" using assms by simp
  then show ?thesis
    using Some by (auto simp: processClient_def Let_def batchLoop_pos split: prod.splits sum.splits)
qed

lemma clientLoop_terminates:
  assumes "\<And>b. batchSize w = Some b \<Longrightarrow> 0 < b"
  shows "\<exists>st'. clientLoop w cs st = Some st'"
proof (induction cs arbitrary: st)
  case Nil
  show ?case by simp
next
  case (Cons c cs)
  obtain res st1 where p: "processClient w c st = Some (res, st1)"
    using processClient_terminates [OF assms] by blast
  show ?case
    using p Cons.IH by (cases res) simp_all
qed

lemma migrate_terminates:
  assumes "\<And>b. batchSize w = Some b \<Longrightarrow> 0 < b"
  shows "\<exists>res st'. migrate w st = Some (res, st')"
proof -
  have "\<And>cs s. \<exists>st'. clientLoop w cs s = Some st'"
    using clientLoop_terminates [OF assms] by blast
  then show ?thesis
    unfolding migrate_def Let_def
    by (auto split: prod.splits sum.splits option.splits) (metis option.distinct(1))
qed

text \<open>The shape of a run that got past the enumeration of the clients.\<close>

lemma connect_frame:
  assumes "connect w st = (r, st1)"
  shows "run_stats st1 = run_stats st" "migration_log st1 = migration_log st"
    "dataSourceInitialized st1 = dataSourceInitialized st"
    "clients_table st1 = clients_table st" "users_table st1 = users_table st"
    "next_id st1 = next_id st"
  using assms by (auto simp: connect_def called_def Let_def split: option.splits)

lemma initializeTables_frame:
  assumes "initializeTables w st = (r, st1)"
  shows "run_stats st1 = run_stats st" "migration_log st1 = migration_log st"
    "dataSourceInitialized st1 = dataSourceInitialized st"
    "clients_table st1 = clients_table st" "users_table st1 = users_table st"
    "next_id st1 = next_id st"
  using assms by (auto simp: initializeTables_def called_def Let_def split: option.splits)

lemma searchClients_frame:
  assumes "searchClients w st = (r, st1)"
  shows "run_stats st1 = run_stats st" "migration_log st1 = migration_log st"
    "dataSourceInitialized st1 = dataSourceInitialized st"
    "clients_table st1 = clients_table st" "users_table st1 = users_table st"
    "next_id st1 = next_id st"
  using assms by (auto simp: searchClients_def called_def Let_def split: sum.splits if_splits)

lemma migrate_returns:
  assumes "migrate w st = Some (Inr r, st')"
  shows "\<exists>st3 clients st4.
           clientLoop w clients
             (st3\<lparr>run_stats := (run_stats st3)\<lparr>totalClients := length clients\<rparr>\<rparr>) = Some st4
         \<and> run_stats st3 = initialStats
         \<and> migration_log st3 = migration_log st
         \<and> dataSourceInitialized st3 = dataSourceInitialized st
         \<and> clients_table st3 = clients_table st \<and> users_table st3 = users_table st
         \<and> next_id st3 = next_id st
         \<and> searchClients w (snd (initializeTables w (snd (connect w (st\<lparr>run_stats := initialStats\<rparr>)))))
             = (Inr clients, st3)
         \<and> r = \<lparr>success = (failedClients (run_stats st4) = 0 \<and> failedUsers (run_stats st4) = 0),
                 stats = run_stats st4, duration = endTime w - startTime w, dryRun_r = dryRun w\<rparr>
         \<and> st' = disconnect w (logMigrationRun w (run_stats st4) st4)"
proof -
  let ?st = "st\<lparr>run_stats := initialStats\<rparr>"
  obtain r1 st1 where c: "connect w ?st = (r1, st1)"
    by (cases "connect w ?st")
  obtain r2 st2 where i: "initializeTables w st1 = (r2, st2)"
    by (cases "initializeTables w st1")
  obtain r3 st3 where s: "searchClients w st2 = (r3, st3)"
    by (cases "searchClients w st2")
  from assms c i s obtain clients where r3: "r3 = Inr clients"
    unfolding migrate_def Let_def by (auto split: sum.splits)
  from assms c i s r3 obtain st4 where
    l: "clientLoop w clients
             (st3\<lparr>run_stats := (run_stats st3)\<lparr>totalClients := length clients\<rparr>\<rparr>) = Some st4"
    and r: "r = \<lparr>success = (failedClients (run_stats st4) = 0 \<and> failedUsers (run_stats st4) = 0),
                 stats = run_stats st4, duration = endTime w - startTime w, dryRun_r = dryRun w\<rparr>"
    and st': "st' = disconnect w (logMigrationRun w (run_stats st4) st4)"
    unfolding migrate_def Let_def by (auto split: sum.splits option.splits)
  show ?thesis
    using l r st' connect_frame [OF c] initializeTables_frame [OF i] searchClients_frame [OF s]
      c i s r3
    by auto
qed

lemma logMigrationRun_frame:
  "dataSourceInitialized (logMigrationRun w s st) = dataSourceInitialized st"
  "isConnected (logMigrationRun w s st) = isConnected st"
  "clients_table (logMigrationRun w s st) = clients_table st"
  "users_table (logMigrationRun w s st) = users_table st"
  "migration_log (logMigrationRun w s st) =
     migration_log st @ (if logInsertFault w = None then [summaryRow s] else [])"
  by (auto simp: logMigrationRun_def called_def Let_def split: option.splits)

lemma migrate_throws:
  assumes "migrate w st = Some (Inl m, st')"
  shows "\<exists>s. st' = disconnect w s \<and> migration_log s = migration_log st
           \<and> dataSourceInitialized s = dataSourceInitialized st"
proof -
  let ?st = "st\<lparr>run_stats := initialStats\<rparr>"
  obtain r1 st1 where c: "connect w ?st = (r1, st1)"
    by (cases "connect w ?st")
  obtain r2 st2 where i: "initializeTables w st1 = (r2, st2)"
    by (cases "initializeTables w st1")
  obtain r3 st3 where s: "searchClients w st2 = (r3, st3)"
    by (cases "searchClients w st2")
  have "st' = disconnect w st1 \<or> st' = disconnect w st2 \<or> st' = disconnect w st3"
    using assms c i s unfolding migrate_def Let_def
    by (auto split: sum.splits option.splits)
  then show ?thesis
    using connect_frame [OF c] initializeTables_frame [OF i] searchClients_frame [OF s]
    by auto
qed

lemma migrate_exit:
  assumes "migrate w st = Some (res, st')"
  shows "\<exists>s. st' = disconnect w s \<and> dataSourceInitialized s = dataSourceInitialized st"
proof (cases res)
  case (Inl m)
  then show ?thesis
    using migrate_throws assms by blast
next
  case (Inr r)
  with assms migrate_returns [of w st r st'] obtain st3 clients st4 where
    l: "clientLoop w clients
             (st3\<lparr>run_stats := (run_stats st3)\<lparr>totalClients := length clients\<rparr>\<rparr>) = Some st4"
    and d: "dataSourceInitialized st3 = dataSourceInitialized st"
    and st': "st' = disconnect w (logMigrationRun w (run_stats st4) st4)"
    by blast
  have "dataSourceInitialized st4 = dataSourceInitialized st"
    using clientLoop_frame [OF l] d by simp
  then show ?thesis
    using st' by (auto simp: logMigrationRun_frame)
qed

lemma migrate_connection_fault:
  assumes "bindFault w \<noteq> None \<or> ddlFault w \<noteq> None \<or> isl (clientSearch w)"
  shows "\<exists>m st'. migrate w st = Some (Inl m, st')"
  using assms unfolding migrate_def Let_def
  by (auto simp: connect_def initializeTables_def searchClients_def called_def Let_def isl_def
      split: option.splits)

lemma migrate_connected_returns:
  assumes "bindFault w = None" "ddlFault w = None" "clientSearch w = Inr es"
    and "migrate w st = Some (res, st')"
  shows "\<exists>r. res = Inr r"
  using assms unfolding migrate_def Let_def
  by (auto simp: connect_def initializeTables_def searchClients_def called_def Let_def
      split: option.splits)

section \<open>The record of calls and the counts of clients\<close>

lemma upsertClient_calls:
  "upsertClient w clientId name st = (r, st1) \<Longrightarrow>
   calls st1 = calls st @ [UpsertClientCall clientId]"
  by (auto simp: upsertClient_def Let_def called_def split: option.splits)

lemma processClient_shape:
  assumes "processClient w client st = Some (res, st')"
  shows "\<exists>r1 st1. upsertClient w (ou client) None st = (r1, st1) \<and>
           (st' = st1 \<or>
            (\<exists>n. st' = (called (SearchUsersCall (ou client)) st1)
                     \<lparr>run_stats := (run_stats st1)\<lparr>totalUsers := n\<rparr>\<rparr>) \<or>
            (res = None \<and>
             (\<exists>c users. st' = processBatch w c users
                ((called (SearchUsersCall (ou client)) st1)
                   \<lparr>run_stats := (run_stats st1)
                      \<lparr>totalUsers := totalUsers (run_stats st1) + length users\<rparr>\<rparr>))))"
proof -
  obtain r1 st1 where u: "upsertClient w (ou client) None st = (r1, st1)"
    by (cases "upsertClient w (ou client) None st")
  obtain r2 st2 where s: "searchUsers w (ou client) st1 = (r2, st2)"
    by (cases "searchUsers w (ou client) st1")
  have st2: "st2 = called (SearchUsersCall (ou client)) st1"
    using s by (rule searchUsers_state)
  have "st' = st1 \<or> (\<exists>n. st' = st2\<lparr>run_stats := (run_stats st2)\<lparr>totalUsers := n\<rparr>\<rparr>)
        \<or> (res = None \<and> (\<exists>c users. st' = processBatch w c users
              (st2\<lparr>run_stats := (run_stats st2)
                     \<lparr>totalUsers := totalUsers (run_stats st2) + length users\<rparr>\<rparr>)))"
  proof (cases r1)
    case (Inl m)
    then show ?thesis
      using assms u by (simp add: processClient_def)
  next
    case r1: (Inr dbClient)
    show ?thesis
    proof (cases r2)
      case (Inl m)
      then have "st' = st2"
        using assms u s r1 by (simp add: processClient_def)
      then have "st' = st2\<lparr>run_stats := (run_stats st2)
                 \<lparr>totalUsers := totalUsers (run_stats st2)\<rparr>\<rparr>"
        by simp
      then show ?thesis
        by blast
    next
      case r2: (Inr users)
      show ?thesis
      proof (cases "batchSize w")
        case None
        then have "st' = st2\<lparr>run_stats := (run_stats st2)
                 \<lparr>totalUsers := totalUsers (run_stats st2) + length users\<rparr>\<rparr>"
          using assms u s r1 r2 by (simp add: processClient_def Let_def split: if_splits)
        then show ?thesis
          by blast
      next
        case (Some b)
        then have l: "batchLoop w (id_c dbClient) users b 0
            (st2\<lparr>run_stats := (run_stats st2)
                 \<lparr>totalUsers := totalUsers (run_stats st2) + length users\<rparr>\<rparr>) = Some st'"
          and n: "res = None"
          using assms u s r1 r2 by (auto simp: processClient_def Let_def)
        from l have "st' = processBatch w (id_c dbClient) users
            (st2\<lparr>run_stats := (run_stats st2)
                 \<lparr>totalUsers := totalUsers (run_stats st2) + length users\<rparr>\<rparr>)"
          by (rule batchLoop_Some)
        then show ?thesis
          using n by blast
      qed
    qed
  qed
  then show ?thesis
    using u st2 by (simp add: called_def)
qed

lemma processClient_trace:
  assumes "processClient w client st = Some (res, st')"
  shows "\<exists>tr. calls st' = calls st @ UpsertClientCall (ou client) # tr
           \<and> LogMigrationRunCall \<notin> set tr"
proof -
  from processClient_shape [OF assms] obtain r1 st1 where
    u: "upsertClient w (ou client) None st = (r1, st1)"
    and d: "st' = st1 \<or>
            (\<exists>n. st' = (called (SearchUsersCall (ou client)) st1)
                     \<lparr>run_stats := (run_stats st1)\<lparr>totalUsers := n\<rparr>\<rparr>) \<or>
            (res = None \<and>
             (\<exists>c users. st' = processBatch w c users
                ((called (SearchUsersCall (ou client)) st1)
                   \<lparr>run_stats := (run_stats st1)
                      \<lparr>totalUsers := totalUsers (run_stats st1) + length users\<rparr>\<rparr>)))"
    by blast
  have c1: "calls st1 = calls st @ [UpsertClientCall (ou client)]"
    using u by (rule upsertClient_calls)
  from d show ?thesis
  proof (elim disjE conjE exE)
    assume "st' = st1"
    then have "calls st' = calls st @ UpsertClientCall (ou client) # []"
      using c1 by simp
    then show ?thesis
      by (intro exI [of _ "[]"]) simp
  next
    fix n
    assume "st' = (called (SearchUsersCall (ou client)) st1)
                     \<lparr>run_stats := (run_stats st1)\<lparr>totalUsers := n\<rparr>\<rparr>"
    then have "calls st' = calls st @ UpsertClientCall (ou client) # [SearchUsersCall (ou client)]"
      using c1 by (simp add: called_def)
    then show ?thesis
      by (intro exI [of _ "[SearchUsersCall (ou client)]"]) simp
  next
    fix c users
    assume "st' = processBatch w c users
                ((called (SearchUsersCall (ou client)) st1)
                   \<lparr>run_stats := (run_stats st1)
                      \<lparr>totalUsers := totalUsers (run_stats st1) + length users\<rparr>\<rparr>)"
    then have "calls st' = calls st @ UpsertClientCall (ou client) #
        (SearchUsersCall (ou client) # map (\<lambda>u. UpsertUserCall c (uid u)) users)"
      using c1 by (simp add: called_def processBatch_calls)
    then show ?thesis
      by (intro exI [of _ "SearchUsersCall (ou client) # map (\<lambda>u. UpsertUserCall c (uid u)) users"])
         auto
  qed
qed

lemma processClient_client_counts:
  assumes "processClient w client st = Some (res, st')"
  shows "successfulClients (run_stats st') = successfulClients (run_stats st)
       \<and> failedClients (run_stats st') = failedClients (run_stats st)
       \<and> totalClients (run_stats st') = totalClients (run_stats st)"
proof -
  from processClient_shape [OF assms] obtain r1 st1 where
    u: "upsertClient w (ou client) None st = (r1, st1)"
    and d: "st' = st1 \<or>
            (\<exists>n. st' = (called (SearchUsersCall (ou client)) st1)
                     \<lparr>run_stats := (run_stats st1)\<lparr>totalUsers := n\<rparr>\<rparr>) \<or>
            (res = None \<and>
             (\<exists>c users. st' = processBatch w c users
                ((called (SearchUsersCall (ou client)) st1)
                   \<lparr>run_stats := (run_stats st1)
                      \<lparr>totalUsers := totalUsers (run_stats st1) + length users\<rparr>\<rparr>)))"
    by blast
  from d show ?thesis
    using upsertClient_frame(1) [OF u] by (auto simp: processBatch_stats)
qed

lemma clientLoop_trace:
  "clientLoop w cs st = Some st' \<Longrightarrow>
   \<exists>tr. calls st' = calls st @ tr \<and> LogMigrationRunCall \<notin> set tr
      \<and> (\<forall>c \<in> set cs. UpsertClientCall (ou c) \<in> set tr)"
proof (induction cs arbitrary: st)
  case Nil
  then show ?case by simp
next
  case (Cons c cs)
  from Cons.prems obtain res st1 where p: "processClient w c st = Some (res, st1)"
    by (auto split: option.splits)
  from processClient_trace [OF p] obtain tr1 where
    t1: "calls st1 = calls st @ UpsertClientCall (ou c) # tr1" "LogMigrationRunCall \<notin> set tr1"
    by blast
  obtain s where l: "clientLoop w cs s = Some st'" and s: "calls s = calls st1"
    using Cons.prems p by (cases res) auto
  from Cons.IH [OF l] obtain tr2 where
    t2: "calls st' = calls s @ tr2" "LogMigrationRunCall \<notin> set tr2"
      "\<forall>c \<in> set cs. UpsertClientCall (ou c) \<in> set tr2"
    by blast
  have "calls st' = calls st @ (UpsertClientCall (ou c) # tr1 @ tr2)"
    using t1 t2 s by simp
  moreover have "LogMigrationRunCall \<notin> set (UpsertClientCall (ou c) # tr1 @ tr2)"
    using t1 t2 by simp
  moreover have "\<forall>x \<in> set (c # cs). UpsertClientCall (ou x) \<in> set (UpsertClientCall (ou c) # tr1 @ tr2)"
    using t2 by simp
  ultimately show ?case
    by blast
qed

lemma clientLoop_counts:
  "clientLoop w cs st = Some st' \<Longrightarrow>
   successfulClients (run_stats st') + failedClients (run_stats st')
     = successfulClients (run_stats st) + failedClients (run_stats st) + length cs
   \<and> failedClients (run_stats st) \<le> failedClients (run_stats st')
   \<and> totalClients (run_stats st') = totalClients (run_stats st)"
proof (induction cs arbitrary: st)
  case Nil
  then show ?case by simp
next
  case (Cons c cs)
  from Cons.prems obtain res st1 where p: "processClient w c st = Some (res, st1)"
    by (auto split: option.splits)
  note k = processClient_client_counts [OF p]
  show ?case
  proof (cases res)
    case None
    let ?s = "st1\<lparr>run_stats := (run_stats st1)
                   \<lparr>successfulClients := successfulClients (run_stats st1) + 1\<rparr>\<rparr>"
    have "clientLoop w cs ?s = Some st'"
      using Cons.prems p None by simp
    from Cons.IH [OF this] show ?thesis
      using k by simp
  next
    case (Some m)
    let ?s = "st1\<lparr>run_stats := (run_stats st1)
                   \<lparr>failedClients := failedClients (run_stats st1) + 1,
                    errors := errors (run_stats st1) @ [''Client '' @ ou c @ '': '' @ m]\<rparr>\<rparr>"
    have "clientLoop w cs ?s = Some st'"
      using Cons.prems p Some by simp
    from Cons.IH [OF this] show ?thesis
      using k by simp
  qed
qed

lemma connect_calls: "calls (snd (connect w st)) = calls st @ [ConnectCall]"
  by (simp add: connect_def called_def Let_def split: option.splits)

lemma initializeTables_calls:
  "calls (snd (initializeTables w st)) = calls st @ [InitializeTablesCall]"
  by (simp add: initializeTables_def called_def Let_def split: option.splits)

lemma searchClients_calls: "calls (snd (searchClients w st)) = calls st @ [SearchClientsCall]"
  by (simp add: searchClients_def called_def Let_def split: sum.splits)

lemma logMigrationRun_calls:
  "calls (logMigrationRun w s st) = calls st @ [LogMigrationRunCall]"
  by (simp add: logMigrationRun_def called_def Let_def split: option.splits)

lemma migrate_returns_calls:
  assumes "migrate w st = Some (Inr r, st')"
  shows "\<exists>tr. calls st' = calls st @ tr @ [LogMigrationRunCall, DisconnectCall]
           \<and> LogMigrationRunCall \<notin> set tr"
proof -
  from migrate_returns [OF assms] obtain st3 clients st4 where
    l: "clientLoop w clients
             (st3\<lparr>run_stats := (run_stats st3)\<lparr>totalClients := length clients\<rparr>\<rparr>) = Some st4"
    and s: "searchClients w (snd (initializeTables w (snd (connect w (st\<lparr>run_stats := initialStats\<rparr>)))))
             = (Inr clients, st3)"
    and st': "st' = disconnect w (logMigrationRun w (run_stats st4) st4)"
    by blast
  have "calls st3 = calls (snd (searchClients w
          (snd (initializeTables w (snd (connect w (st\<lparr>run_stats := initialStats\<rparr>)))))))"
    unfolding s by simp
  then have c3: "calls st3 = calls st @ [ConnectCall, InitializeTablesCall, SearchClientsCall]"
    by (simp add: searchClients_calls initializeTables_calls connect_calls)
  from clientLoop_trace [OF l] obtain tr where
    t: "calls st4 = calls st3 @ tr" "LogMigrationRunCall \<notin> set tr"
    by auto
  have "calls st' = calls st @ ([ConnectCall, InitializeTablesCall, SearchClientsCall] @ tr)
          @ [LogMigrationRunCall, DisconnectCall]"
    unfolding st' using c3 t by (simp add: disconnect_frame logMigrationRun_calls)
  moreover have "LogMigrationRunCall \<notin> set ([ConnectCall, InitializeTablesCall, SearchClientsCall] @ tr)"
    using t by simp
  ultimately show ?thesis
    by blast
qed

lemma migrate_throws_calls:
  assumes "migrate w st = Some (Inl m, st')"
  shows "\<exists>tr. calls st' = calls st @ tr \<and> LogMigrationRunCall \<notin> set tr"
proof -
  let ?st = "st\<lparr>run_stats := initialStats\<rparr>"
  let ?s1 = "snd (connect w ?st)"
  let ?s2 = "snd (initializeTables w ?s1)"
  let ?s3 = "snd (searchClients w ?s2)"
  have "st' = disconnect w ?s1 \<or> st' = disconnect w ?s2 \<or> st' = disconnect w ?s3"
    using assms unfolding migrate_def Let_def
    by (auto split: sum.splits option.splits prod.splits)
  then have "calls st' = calls st @ [ConnectCall, DisconnectCall]
      \<or> calls st' = calls st @ [ConnectCall, InitializeTablesCall, DisconnectCall]
      \<or> calls st' = calls st @ [ConnectCall, InitializeTablesCall, SearchClientsCall, DisconnectCall]"
    by (auto simp: disconnect_frame searchClients_calls initializeTables_calls connect_calls)
  then show ?thesis
    by (elim disjE) (rule exI, rule conjI, assumption, simp)+
qed
subsection \<open>A client whose upsert fails\<close>

lemma upsertClient_fault:
  "clientRepoFault w clientId = Some m \<Longrightarrow>
   upsertClient w clientId name st =
     (Inl (''Client upsert failed for '' @ clientId @ '': '' @ m),
      called (UpsertClientCall clientId) st)"
  by (simp add: upsertClient_def Let_def)


lemma broken_client_run:
  "map_option (\<lambda>st. (calls st, failedClients (run_stats st), successfulClients (run_stats st),
                      errors (run_stats st), map username (users_table st)))
     (clientLoop brokenClientWorld
        [\<lparr>ou = ''clientB'', client_dn = ''ou=clientB,ou=clients,dc=example,dc=com''\<rparr>]
        (connectedSys\<lparr>calls := calls connectedSys @ [UpsertClientCall ''clientA''],
               run_stats := (run_stats connectedSys)
                 \<lparr>failedClients := failedClients (run_stats connectedSys) + 1,
                  errors := errors (run_stats connectedSys) @
                    [''Client '' @ ''clientA'' @ '': Client upsert failed for '' @ ''clientA'' @
                     '': '' @ ''connection reset'']\<rparr>\<rparr>)) =
   Some ([UpsertClientCall ''clientA'', UpsertClientCall ''clientB'', SearchUsersCall ''clientB'',
          UpsertUserCall 1 ''user3''], 1, 1,
         [''Client clientA: Client upsert failed for clientA: connection reset''], [''user3''])"
  by (simp add: brokenClientWorld_def connectedSys_def eval_defs)


subsection \<open>The run summary\<close>

text \<open>
  Claim C8, amended. When the LDAP bind, the creation of the tables and the search for
  the clients succeed and the run ends, \<open>migrate\<close> returns a result and has called
  \<open>logMigrationRun\<close> exactly once, as its last call before \<open>disconnect\<close>: the table of
  summaries has grown by exactly the summary of the returned statistics when the insert
  succeeds, and is unchanged when the insert fails, because \<open>logMigrationRun\<close> swallows
  that error. When the bind, the creation of the tables or the search for the clients
  fails, the error is rethrown, \<open>logMigrationRun\<close> is not called and no summary is
  written. For a batch size that is \<open>NaN\<close> or positive the run ends.
\<close>
theorem run_summary_written_once:
  "(bindFault w = None \<and> ddlFault w = None \<and> clientSearch w = Inr es \<and>
      migrate w st = Some (res, st') \<longrightarrow>
      (\<exists>r tr. res = Inr r \<and>
           calls st' = calls st @ tr @ [LogMigrationRunCall, DisconnectCall] \<and>
           LogMigrationRunCall \<notin> set tr \<and>
           migration_log st' =
             migration_log st @ (if logInsertFault w = None then [summaryRow (stats r)] else [])))
   \<and> (bindFault w \<noteq> None \<or> ddlFault w \<noteq> None \<or> isl (clientSearch w) \<longrightarrow>
       (\<exists>m st'' tr. migrate w st = Some (Inl m, st'') \<and>
           calls st'' = calls st @ tr \<and> LogMigrationRunCall \<notin> set tr \<and>
           migration_log st'' = migration_log st))
   \<and> ((\<forall>b. batchSize w = Some b \<longrightarrow> 0 < b) \<longrightarrow> migrate w st \<noteq> None)"
proof (intro conjI impI)
  assume a: "bindFault w = None \<and> ddlFault w = None \<and> clientSearch w = Inr es \<and>
      migrate w st = Some (res, st')"
  then obtain r where r: "res = Inr r"
    using migrate_connected_returns by blast
  with a migrate_returns [of w st r st'] obtain st3 clients st4 where
    l: "clientLoop w clients
             (st3\<lparr>run_stats := (run_stats st3)\<lparr>totalClients := length clients\<rparr>\<rparr>) = Some st4"
    and m: "migration_log st3 = migration_log st"
    and s: "r = \<lparr>success = (failedClients (run_stats st4) = 0 \<and> failedUsers (run_stats st4) = 0),
                 stats = run_stats st4, duration = endTime w - startTime w, dryRun_r = dryRun w\<rparr>"
    and st': "st' = disconnect w (logMigrationRun w (run_stats st4) st4)"
    by blast
  have "migration_log st4 = migration_log st"
    using clientLoop_frame [OF l] m by simp
  then have g: "migration_log st' =
      migration_log st @ (if logInsertFault w = None then [summaryRow (stats r)] else [])"
    unfolding st' s by (simp add: disconnect_frame logMigrationRun_frame)
  from a r migrate_returns_calls [of w st r st'] obtain tr where
    "calls st' = calls st @ tr @ [LogMigrationRunCall, DisconnectCall]"
    "LogMigrationRunCall \<notin> set tr"
    by blast
  then show "\<exists>r tr. res = Inr r \<and>
           calls st' = calls st @ tr @ [LogMigrationRunCall, DisconnectCall] \<and>
           LogMigrationRunCall \<notin> set tr \<and>
           migration_log st' =
             migration_log st @ (if logInsertFault w = None then [summaryRow (stats r)] else [])"
    using r g by blast
next
  assume "bindFault w \<noteq> None \<or> ddlFault w \<noteq> None \<or> isl (clientSearch w)"
  then obtain m st'' where t: "migrate w st = Some (Inl m, st'')"
    using migrate_connection_fault by blast
  then have g: "migration_log st'' = migration_log st"
    using migrate_throws [OF t] by (auto simp: disconnect_frame)
  from migrate_throws_calls [OF t] obtain tr where
    "calls st'' = calls st @ tr" "LogMigrationRunCall \<notin> set tr"
    by blast
  then show "\<exists>m st'' tr. migrate w st = Some (Inl m, st'') \<and>
           calls st'' = calls st @ tr \<and> LogMigrationRunCall \<notin> set tr \<and>
           migration_log st'' = migration_log st"
    using t g by blast
next
  assume "\<forall>b. batchSize w = Some b \<longrightarrow> 0 < b"
  then show "migrate w st \<noteq> None"
    using migrate_terminates [of w st] by auto
qed

lemma example_run_ends: "\<exists>res st'. migrate exampleWorld emptySys = Some (res, st')"
  by (simp add: eval_defs)

theorem run_summary_written_once_witness:
  "(\<exists>r st' tr. migrate exampleWorld emptySys = Some (Inr r, st') \<and>
      calls st' = tr @ [LogMigrationRunCall, DisconnectCall] \<and> LogMigrationRunCall \<notin> set tr \<and>
      migration_log st' = [summaryRow (stats r)])
   \<and> (\<exists>m st' tr. migrate unreachableWorld emptySys = Some (Inl m, st') \<and>
      calls st' = tr \<and> LogMigrationRunCall \<notin> set tr \<and> migration_log st' = [])"
proof -
  obtain res st' where e: "migrate exampleWorld emptySys = Some (res, st')"
    using example_run_ends by blast
  have f: "bindFault exampleWorld = None" "ddlFault exampleWorld = None"
    "clientSearch exampleWorld = Inr [clientEntry ''clientA'', clientEntry ''clientB'']"
    "logInsertFault exampleWorld = None" "migration_log emptySys = []" "calls emptySys = []"
    "bindFault unreachableWorld \<noteq> None"
    by (simp_all add: exampleWorld_def emptySys_def unreachableWorld_def)
  show ?thesis
    using run_summary_written_once
        [of exampleWorld "[clientEntry ''clientA'', clientEntry ''clientB'']" emptySys res st']
      run_summary_written_once [of unreachableWorld "[]" emptySys "Inl []" emptySys]
      e f
    by auto
qed

text \<open>
  The claim as it is written fails in two ways: with a failing insert the run returns
  normally and no summary is stored, and with a failing search for the clients the
  connection step has succeeded, yet the run ends with an error and without a summary.
\<close>

theorem run_summary_not_written_counterexample:
  "map_option (\<lambda>(res, st). (isl res, migration_log st)) (migrate lostSummaryWorld emptySys)
     = Some (False, [])
   \<and> bindFault lostSummaryWorld = None \<and> ddlFault lostSummaryWorld = None
   \<and> map_option (\<lambda>(res, st). (isl res, migration_log st)) (migrate missingBaseWorld emptySys)
     = Some (True, [])
   \<and> bindFault missingBaseWorld = None \<and> ddlFault missingBaseWorld = None"
  by (simp add: lostSummaryWorld_def missingBaseWorld_def eval_defs)

subsection \<open>Releasing the connections\<close>

text \<open>
  What holds on every path on which \<open>migrate\<close> ends, with a result or with a rethrown
  error: the last call is \<open>LdapService.disconnect\<close>, after which the directory
  connection is released unless the unbind itself fails, and the data source is
  initialized after the run exactly when it was before.
\<close>

lemma migrate_keeps_data_source:
  "migrate w st = Some (res, st') \<Longrightarrow>
   last (calls st') = DisconnectCall
   \<and> (unbindFault w = None \<longrightarrow> \<not> isConnected st')
   \<and> dataSourceInitialized st' = dataSourceInitialized st"
  using migrate_exit [of w st res st']
  by (auto simp: disconnect_frame)

text \<open>
  Claim C9 says that \<open>migrate\<close> releases the directory connection and the store
  connection on every exit path. The \<open>finally\<close> block of \<open>migrate\<close>, under the comment
  \<open>Cleanup connections\<close>, calls \<open>ldapService.disconnect\<close> only. On the example directory,
  after a run that returns and after a run that rethrows a connection error, the
  directory connection is released and the data source is still initialized; and
  \<open>bootstrap\<close> exits in that state, because it never runs the hook \<open>onModuleDestroy\<close>,
  the one place where the data source is destroyed.
\<close>

theorem store_connection_not_released:
  "map_option (\<lambda>(res, st). (isl res, isConnected st, dataSourceInitialized st))
     (migrate exampleWorld emptySys) = Some (False, False, True)
   \<and> map_option (\<lambda>(res, st). (isl res, isConnected st, dataSourceInitialized st))
       (migrate unreachableWorld emptySys) = Some (True, False, True)
   \<and> map_option (\<lambda>(code, st). (code, isConnected st, dataSourceInitialized st))
       (bootstrap exampleWorld emptySys) = Some (0, False, True)
   \<and> map_option (\<lambda>(code, st). (code, isConnected st, dataSourceInitialized st))
       (bootstrap unreachableWorld emptySys) = Some (1, False, True)
   \<and> dataSourceInitialized (onModuleDestroy emptySys) = False"
  by (simp add: bootstrap_def unreachableWorld_def onModuleDestroy_def eval_defs)

subsection \<open>The statistics\<close>

text \<open>
  What holds when the batch size is a number: the statistics of every result that
  \<open>migrate\<close> returns count each client found and each user found once, as successful
  or as failed, with one message for each failure.
\<close>

lemma numeric_batch_size_tallies:
  assumes "batchSize w \<noteq> None" and "migrate w st = Some (Inr r, st')"
  shows "totalClients (stats r) = successfulClients (stats r) + failedClients (stats r)
       \<and> totalUsers (stats r) = successfulUsers (stats r) + failedUsers (stats r)
       \<and> length (errors (stats r)) = failedClients (stats r) + failedUsers (stats r)"
proof -
  from assms(1) obtain b where b: "batchSize w = Some b"
    by auto
  from migrate_returns [OF assms(2)] obtain st3 clients st4 where
    l: "clientLoop w clients
             (st3\<lparr>run_stats := (run_stats st3)\<lparr>totalClients := length clients\<rparr>\<rparr>) = Some st4"
    and i: "run_stats st3 = initialStats"
    and s: "r = \<lparr>success = (failedClients (run_stats st4) = 0 \<and> failedUsers (run_stats st4) = 0),
                 stats = run_stats st4, duration = endTime w - startTime w, dryRun_r = dryRun w\<rparr>"
    by blast
  have "tallied (run_stats (st3\<lparr>run_stats := (run_stats st3)\<lparr>totalClients := length clients\<rparr>\<rparr>))"
    using i by (simp add: tallied_def initialStats_def)
  from clientLoop_tallied [OF l b this] show ?thesis
    unfolding s using i by (simp add: tallied_def initialStats_def)
qed

text \<open>
  Claim C10 says that after every normal return the users found are the successful plus
  the failed ones. \<open>processUser\<close> counts each user it is given in one of the two
  counters, but the batch size, \<open>parseInt(process.env.BATCH_SIZE || '100', 10)\<close>, is
  checked nowhere: when \<open>BATCH_SIZE\<close> is not a number the loop over the batches ends
  after one empty batch. On the example directory the three users are counted in
  \<open>totalUsers\<close>, none of them is processed, stored or counted, and the run reports
  success.
\<close>

theorem users_not_tallied:
  "map_option (\<lambda>(res, st). (res, length (users_table st))) (migrate nanBatchWorld emptySys) =
     Some (Inr \<lparr>success = True,
                stats = \<lparr>totalClients = 2, totalUsers = 3, successfulClients = 2,
                         successfulUsers = 0, failedClients = 0, failedUsers = 0, errors = []\<rparr>,
                duration = 250, dryRun_r = False\<rparr>, 0)
   \<and> batchSize nanBatchWorld = None"
  by (simp add: nanBatchWorld_def eval_defs)

section \<open>Running the migration again\<close>

lemma js_or_None [simp]: "js_or None x = x"
  by (simp add: js_or_def)

lemma upsertClient_found:
  "clientRepoFault w clientId = None \<Longrightarrow>
   findIndex (\<lambda>c. client_id_c c = clientId) (clients_table st) = Some i \<Longrightarrow>
   upsertClient w clientId None st =
     (Inr (clients_table st ! i), called (UpsertClientCall clientId) st)"
  by (simp add: upsertClient_def Let_def called_def)

lemma upsertClient_new:
  "clientRepoFault w clientId = None \<Longrightarrow>
   findIndex (\<lambda>c. client_id_c c = clientId) (clients_table st) = None \<Longrightarrow>
   upsertClient w clientId None st =
     (Inr \<lparr>id_c = next_id st, client_id_c = clientId, name_c = None\<rparr>,
      (called (UpsertClientCall clientId) st)
        \<lparr>clients_table := clients_table st @
           [\<lparr>id_c = next_id st, client_id_c = clientId, name_c = None\<rparr>],
         next_id := next_id st + 1\<rparr>)"
  by (simp add: upsertClient_def Let_def called_def)

lemma findIndex_append_Some:
  "findIndex P xs = Some i \<Longrightarrow> findIndex P (xs @ ys) = Some i"
  by (induction xs arbitrary: i) (auto split: if_splits)

lemma findIndex_snoc_None:
  "findIndex P xs = None \<Longrightarrow>
   findIndex P (xs @ [y]) = (if P y then Some (length xs) else None)"
  by (induction xs) (auto split: if_splits)

lemma clientIdOf_cong:
  "clients_table st' = clients_table st \<Longrightarrow> clientIdOf st' = clientIdOf st"
  by (simp add: clientIdOf_def fun_eq_iff)

lemma storedUsers_cong:
  "users_table st' = users_table st \<Longrightarrow> storedUsers st' = storedUsers st"
  by (simp add: storedUsers_def)

lemma userKeys_cong:
  "users_table st' = users_table st \<Longrightarrow> userKeys st' = userKeys st"
  by (simp add: userKeys_def)

text \<open>The upsert of a client when the repository does not fail.\<close>

lemma upsertClient_ok:
  assumes "clientRepoFault w clientId = None"
  shows "upsertClient w clientId None st =
           (Inr (projr (fst (upsertClient w clientId None st))),
            snd (upsertClient w clientId None st))"
    and "clientIdOf (snd (upsertClient w clientId None st)) clientId =
           Some (id_c (projr (fst (upsertClient w clientId None st))))"
    and "clientIdOf st k = Some cid \<Longrightarrow>
         clientIdOf (snd (upsertClient w clientId None st)) k = Some cid"
    and "clientIdOf st clientId \<noteq> None \<Longrightarrow>
         clients_table (snd (upsertClient w clientId None st)) = clients_table st"
proof -
  let ?new = "\<lparr>id_c = next_id st, client_id_c = clientId, name_c = None\<rparr>"
  have "upsertClient w clientId None st =
           (Inr (projr (fst (upsertClient w clientId None st))),
            snd (upsertClient w clientId None st))
    \<and> clientIdOf (snd (upsertClient w clientId None st)) clientId =
           Some (id_c (projr (fst (upsertClient w clientId None st))))
    \<and> (clientIdOf st k = Some cid \<longrightarrow>
         clientIdOf (snd (upsertClient w clientId None st)) k = Some cid)
    \<and> (clientIdOf st clientId \<noteq> None \<longrightarrow>
         clients_table (snd (upsertClient w clientId None st)) = clients_table st)"
  proof (cases "findIndex (\<lambda>c. client_id_c c = clientId) (clients_table st)")
    case None
    have u: "upsertClient w clientId None st =
       (Inr ?new, (called (UpsertClientCall clientId) st)
          \<lparr>clients_table := clients_table st @ [?new], next_id := next_id st + 1\<rparr>)"
      using assms None by (rule upsertClient_new)
    have a: "findIndex (\<lambda>c. client_id_c c = clientId) (clients_table st @ [?new])
        = Some (length (clients_table st))"
      using None by (simp add: findIndex_snoc_None)
    have b: "clientIdOf st k = Some cid \<longrightarrow>
        map_option (\<lambda>i. id_c ((clients_table st @ [?new]) ! i))
          (findIndex (\<lambda>c. client_id_c c = k) (clients_table st @ [?new])) = Some cid"
    proof
      assume "clientIdOf st k = Some cid"
      then obtain i where i: "findIndex (\<lambda>c. client_id_c c = k) (clients_table st) = Some i"
        and c: "cid = id_c (clients_table st ! i)"
        by (auto simp: clientIdOf_def)
      have "i < length (clients_table st)"
        using i by (auto dest: findIndex_Some)
      then show "map_option (\<lambda>i. id_c ((clients_table st @ [?new]) ! i))
          (findIndex (\<lambda>c. client_id_c c = k) (clients_table st @ [?new])) = Some cid"
        using i c by (simp add: findIndex_append_Some nth_append)
    qed
    have c: "clientIdOf st clientId = None"
      using None by (simp add: clientIdOf_def)
    show ?thesis
      unfolding u using a b c by (simp add: clientIdOf_def called_def)
  next
    case (Some i)
    have u: "upsertClient w clientId None st =
       (Inr (clients_table st ! i), called (UpsertClientCall clientId) st)"
      using assms Some by (rule upsertClient_found)
    show ?thesis
      unfolding u using Some by (simp add: clientIdOf_def called_def)
  qed
  then show "upsertClient w clientId None st =
           (Inr (projr (fst (upsertClient w clientId None st))),
            snd (upsertClient w clientId None st))"
    and "clientIdOf (snd (upsertClient w clientId None st)) clientId =
           Some (id_c (projr (fst (upsertClient w clientId None st))))"
    and "clientIdOf st k = Some cid \<Longrightarrow>
         clientIdOf (snd (upsertClient w clientId None st)) k = Some cid"
    and "clientIdOf st clientId \<noteq> None \<Longrightarrow>
         clients_table (snd (upsertClient w clientId None st)) = clients_table st"
    by simp_all
qed

lemma searchUsers_ok:
  assumes "isConnected st" and "\<not> isl (userSearch w clientOU)"
  shows "searchUsers w clientOU st =
           (Inr (directoryUsers w clientOU), called (SearchUsersCall clientOU) st)"
  using assms
  by (cases "userSearch w clientOU")
     (simp_all add: searchUsers_def directoryUsers_def called_def Let_def)

text \<open>A call of processClient in a world without faults.\<close>

lemma processClient_ok:
  assumes "isConnected st" and "clientRepoFault w (ou client) = None"
    and "\<not> isl (userSearch w (ou client))" and "batchSize w = Some b" and "0 < b"
    and "upsertClient w (ou client) None st = (Inr dbClient, st1)"
  shows "processClient w client st =
       Some (None, processBatch w (id_c dbClient) (directoryUsers w (ou client))
         ((called (SearchUsersCall (ou client)) st1)
            \<lparr>run_stats := (run_stats st1)
               \<lparr>totalUsers := totalUsers (run_stats st1)
                  + length (directoryUsers w (ou client))\<rparr>\<rparr>))"
proof -
  have "isConnected st1"
    using upsertClient_frame(3) [OF assms(6)] assms(1) by simp
  then have s: "searchUsers w (ou client) st1 =
           (Inr (directoryUsers w (ou client)), called (SearchUsersCall (ou client)) st1)"
    using assms(3) by (rule searchUsers_ok)
  show ?thesis
    using assms(4,5,6) s by (simp add: processClient_def Let_def batchLoop_pos called_def)
qed

lemma processUser_stored_keys:
  "(c, uid u) \<in> set (storedUsers st) \<Longrightarrow> userKeys (processUser w u c st) = userKeys st"
  by (simp add: processUser_userKeys)

lemma processBatch_stored_keys:
  "\<forall>u \<in> set b. (c, uid u) \<in> set (storedUsers st) \<Longrightarrow>
   userKeys (processBatch w c b st) = userKeys st"
proof (induction b arbitrary: st)
  case Nil
  show ?case by simp
next
  case (Cons u us)
  have k: "userKeys (processUser w u c st) = userKeys st"
    using Cons.prems by (intro processUser_stored_keys) simp
  have s: "storedUsers (processUser w u c st) = storedUsers st"
    unfolding storedUsers_userKeys k ..
  have "\<forall>v \<in> set us. (c, uid v) \<in> set (storedUsers (processUser w u c st))"
    unfolding s using Cons.prems by simp
  then have "userKeys (processBatch w c us (processUser w u c st)) = userKeys (processUser w u c st)"
    by (rule Cons.IH)
  then show ?case
    unfolding processBatch_Cons k .
qed

lemma processBatch_no_failures:
  assumes "\<forall>clientId u. userRepoFault w clientId u = None"
  shows "failedUsers (run_stats (processBatch w c b st)) = failedUsers (run_stats st)"
    and "failedClients (run_stats (processBatch w c b st)) = failedClients (run_stats st)"
proof -
  have "filter (userFails w c) b = []"
    using assms by (simp add: userFails_def)
  then show "failedUsers (run_stats (processBatch w c b st)) = failedUsers (run_stats st)"
    and "failedClients (run_stats (processBatch w c b st)) = failedClients (run_stats st)"
    by (simp_all add: processBatch_stats)
qed

lemma covered_cong:
  "clients_table st' = clients_table st \<Longrightarrow> userKeys st' = userKeys st \<Longrightarrow>
   covered st' w cs = covered st w cs"
  by (simp add: covered_def clientIdOf_def storedUsers_userKeys)

lemma covered_world:
  "\<forall>c \<in> set cs. directoryUsers w (ou c) = directoryUsers w' (ou c) \<Longrightarrow>
   covered st w cs = covered st w' cs"
  by (simp add: covered_def)

lemma processUser_prefix: "\<exists>more. userKeys (processUser w u c st) = userKeys st @ more"
  by (simp add: processUser_userKeys)

lemma processBatch_prefix: "\<exists>more. userKeys (processBatch w c b st) = userKeys st @ more"
proof (induction b arbitrary: st)
  case Nil
  show ?case by simp
next
  case (Cons u us)
  obtain m1 where m1: "userKeys (processUser w u c st) = userKeys st @ m1"
    using processUser_prefix by blast
  obtain m2 where "userKeys (processBatch w c us (processUser w u c st))
      = userKeys (processUser w u c st) @ m2"
    using Cons.IH by blast
  then have "userKeys (processBatch w c (u # us) st) = userKeys st @ (m1 @ m2)"
    using m1 by simp
  then show ?case ..
qed

lemma keepsRows_stored:
  assumes "keepsRows st st'"
  shows "set (storedUsers st) \<subseteq> set (storedUsers st')"
proof -
  from assms obtain more where "userKeys st' = userKeys st @ more"
    by (auto simp: keepsRows_def)
  then show ?thesis
    by (simp add: storedUsers_userKeys)
qed

lemma covered_keeps:
  assumes "covered st w cs" and "keepsRows st st'"
  shows "covered st' w cs"
proof -
  have s: "\<And>k. k \<in> set (storedUsers st) \<Longrightarrow> k \<in> set (storedUsers st')"
    using keepsRows_stored [OF assms(2)] by blast
  have c: "\<And>k cid. clientIdOf st k = Some cid \<Longrightarrow> clientIdOf st' k = Some cid"
    using assms(2) by (simp add: keepsRows_def)
  show ?thesis
    using assms(1) unfolding covered_def by (meson s c)
qed

lemma keepsRows_refl: "keepsRows st st"
  by (simp add: keepsRows_def)

lemma keepsRows_trans:
  assumes "keepsRows a b" and "keepsRows b c"
  shows "keepsRows a c"
proof -
  from assms obtain m1 m2 where "userKeys b = userKeys a @ m1" "userKeys c = userKeys b @ m2"
    by (auto simp: keepsRows_def)
  then have "userKeys c = userKeys a @ (m1 @ m2)"
    by simp
  then have "\<exists>more. userKeys c = userKeys a @ more" ..
  then show ?thesis
    using assms by (simp add: keepsRows_def)
qed

lemma keepsRows_cong:
  "clients_table st' = clients_table st \<Longrightarrow> users_table st' = users_table st \<Longrightarrow>
   keepsRows st st' \<and> keepsRows st' st"
  by (simp add: keepsRows_def clientIdOf_def userKeys_def)

lemma covered_Cons: "covered st w (c # cs) = (covered st w [c] \<and> covered st w cs)"
  by (auto simp: covered_def)

lemma clientLoop_first_run:
  assumes nc: "\<forall>k. clientRepoFault w k = None"
    and nu: "\<forall>cid u. userRepoFault w cid u = None"
    and bs: "batchSize w = Some b" "0 < b"
  shows "\<forall>c \<in> set cs. \<not> isl (userSearch w (ou c)) \<Longrightarrow> isConnected st \<Longrightarrow>
         \<exists>st'. clientLoop w cs st = Some st' \<and> covered st' w cs \<and> keepsRows st st'
           \<and> failedClients (run_stats st') = failedClients (run_stats st)
           \<and> failedUsers (run_stats st') = failedUsers (run_stats st)"
proof (induction cs arbitrary: st)
  case Nil
  show ?case
    by (simp add: covered_def keepsRows_refl)
next
  case (Cons c cs)
  have nc': "clientRepoFault w (ou c) = None" using nc by simp
  have ns: "\<not> isl (userSearch w (ou c))" using Cons.prems(1) by simp
  let ?us = "directoryUsers w (ou c)"
  define dbClient where "dbClient = projr (fst (upsertClient w (ou c) None st))"
  define st1 where "st1 = snd (upsertClient w (ou c) None st)"
  have u: "upsertClient w (ou c) None st = (Inr dbClient, st1)"
    unfolding dbClient_def st1_def using nc' by (rule upsertClient_ok(1))
  have a: "clientIdOf st1 (ou c) = Some (id_c dbClient)"
    unfolding dbClient_def st1_def using nc' by (rule upsertClient_ok(2))
  have kb: "\<And>k cid. clientIdOf st k = Some cid \<Longrightarrow> clientIdOf st1 k = Some cid"
    unfolding st1_def using nc' by (rule upsertClient_ok(3))
  have p: "processClient w c st =
       Some (None, processBatch w (id_c dbClient) ?us
         ((called (SearchUsersCall (ou c)) st1)
            \<lparr>run_stats := (run_stats st1)
               \<lparr>totalUsers := totalUsers (run_stats st1) + length ?us\<rparr>\<rparr>))"
    using Cons.prems(2) nc' ns bs u by (rule processClient_ok)
  define S where "S = (called (SearchUsersCall (ou c)) st1)
            \<lparr>run_stats := (run_stats st1)
               \<lparr>totalUsers := totalUsers (run_stats st1) + length ?us\<rparr>\<rparr>"
  define st2 where "st2 = processBatch w (id_c dbClient) ?us S"
  define st3 where "st3 = st2\<lparr>run_stats := (run_stats st2)
                   \<lparr>successfulClients := successfulClients (run_stats st2) + 1\<rparr>\<rparr>"
  note fr = upsertClient_frame [OF u]
  have S: "clients_table S = clients_table st1" "users_table S = users_table st"
    "isConnected S" "failedClients (run_stats S) = failedClients (run_stats st)"
    "failedUsers (run_stats S) = failedUsers (run_stats st)"
    using fr Cons.prems(2) by (simp_all add: S_def called_def)
  have ct3: "clients_table st3 = clients_table st1"
    by (simp add: st3_def st2_def processBatch_frame S)
  have ut3: "users_table st3 = users_table st2"
    by (simp add: st3_def)
  have con3: "isConnected st3"
    by (simp add: st3_def st2_def processBatch_frame S)
  have f3: "failedClients (run_stats st3) = failedClients (run_stats st)"
    "failedUsers (run_stats st3) = failedUsers (run_stats st)"
    using processBatch_no_failures [OF nu, of "id_c dbClient" ?us S] S
    by (simp_all add: st3_def st2_def)
  have id3: "clientIdOf st3 (ou c) = Some (id_c dbClient)"
    unfolding clientIdOf_cong [OF ct3] by (rule a)
  have us3: "\<forall>v \<in> set ?us. (id_c dbClient, uid v) \<in> set (storedUsers st3)"
    unfolding storedUsers_cong [OF ut3] st2_def
    using nu by (auto intro!: processBatch_stores simp: userFails_def)
  have c3: "covered st3 w [c]"
    using id3 us3 by (simp add: covered_def)
  have k3: "keepsRows st st3"
  proof -
    have "\<And>k cid. clientIdOf st k = Some cid \<Longrightarrow> clientIdOf st3 k = Some cid"
      unfolding clientIdOf_cong [OF ct3] by (rule kb)
    moreover have "\<exists>more. userKeys st3 = userKeys st @ more"
    proof -
      have "userKeys st3 = userKeys st2" "userKeys S = userKeys st"
        using ut3 S(2) by (simp_all add: userKeys_def)
      then show ?thesis
        unfolding st2_def using processBatch_prefix [of w "id_c dbClient" ?us S] by simp
    qed
    ultimately show ?thesis
      by (simp add: keepsRows_def)
  qed
  have l: "clientLoop w (c # cs) st = clientLoop w cs st3"
    using p by (simp add: st3_def st2_def S_def)
  have "\<forall>c \<in> set cs. \<not> isl (userSearch w (ou c))"
    using Cons.prems(1) by simp
  from Cons.IH [OF this con3] obtain st' where
    l': "clientLoop w cs st3 = Some st'" and c': "covered st' w cs" and k': "keepsRows st3 st'"
    and f': "failedClients (run_stats st') = failedClients (run_stats st3)"
      "failedUsers (run_stats st') = failedUsers (run_stats st3)"
    by blast
  have "covered st' w (c # cs)"
    using covered_keeps [OF c3 k'] c' covered_Cons by blast
  moreover have "keepsRows st st'"
    using k3 k' by (rule keepsRows_trans)
  ultimately show ?case
    using l l' f' f3 by simp
qed

lemma clientLoop_second_run:
  assumes nc: "\<forall>k. clientRepoFault w k = None"
    and nu: "\<forall>cid u. userRepoFault w cid u = None"
    and bs: "batchSize w = Some b" "0 < b"
  shows "\<forall>c \<in> set cs. \<not> isl (userSearch w (ou c)) \<Longrightarrow> isConnected st \<Longrightarrow>
         covered st w cs \<Longrightarrow>
         \<exists>st'. clientLoop w cs st = Some st' \<and> clients_table st' = clients_table st
           \<and> userKeys st' = userKeys st
           \<and> failedClients (run_stats st') = failedClients (run_stats st)
           \<and> failedUsers (run_stats st') = failedUsers (run_stats st)"
proof (induction cs arbitrary: st)
  case Nil
  show ?case by simp
next
  case (Cons c cs)
  have nc': "clientRepoFault w (ou c) = None" using nc by simp
  have ns: "\<not> isl (userSearch w (ou c))" using Cons.prems(1) by simp
  let ?us = "directoryUsers w (ou c)"
  from Cons.prems(3) obtain cid where
    cid: "clientIdOf st (ou c) = Some cid"
    and stored: "\<forall>v \<in> set ?us. (cid, uid v) \<in> set (storedUsers st)"
    and rest: "covered st w cs"
    by (auto simp: covered_def)
  define dbClient where "dbClient = projr (fst (upsertClient w (ou c) None st))"
  define st1 where "st1 = snd (upsertClient w (ou c) None st)"
  have u: "upsertClient w (ou c) None st = (Inr dbClient, st1)"
    unfolding dbClient_def st1_def using nc' by (rule upsertClient_ok(1))
  have a: "clientIdOf st1 (ou c) = Some (id_c dbClient)"
    unfolding dbClient_def st1_def using nc' by (rule upsertClient_ok(2))
  have same: "clientIdOf st (ou c) \<noteq> None \<Longrightarrow> clients_table st1 = clients_table st"
    unfolding st1_def using nc' by (rule upsertClient_ok(4))
  have p: "processClient w c st =
       Some (None, processBatch w (id_c dbClient) ?us
         ((called (SearchUsersCall (ou c)) st1)
            \<lparr>run_stats := (run_stats st1)
               \<lparr>totalUsers := totalUsers (run_stats st1) + length ?us\<rparr>\<rparr>))"
    using Cons.prems(2) nc' ns bs u by (rule processClient_ok)
  have ct1: "clients_table st1 = clients_table st"
    using same cid by simp
  have idc: "id_c dbClient = cid"
    using a cid unfolding clientIdOf_cong [OF ct1] by simp
  define S where "S = (called (SearchUsersCall (ou c)) st1)
            \<lparr>run_stats := (run_stats st1)
               \<lparr>totalUsers := totalUsers (run_stats st1) + length ?us\<rparr>\<rparr>"
  define st2 where "st2 = processBatch w (id_c dbClient) ?us S"
  define st3 where "st3 = st2\<lparr>run_stats := (run_stats st2)
                   \<lparr>successfulClients := successfulClients (run_stats st2) + 1\<rparr>\<rparr>"
  note fr = upsertClient_frame [OF u]
  have S: "clients_table S = clients_table st" "users_table S = users_table st"
    "isConnected S" "failedClients (run_stats S) = failedClients (run_stats st)"
    "failedUsers (run_stats S) = failedUsers (run_stats st)"
    using fr ct1 Cons.prems(2) by (simp_all add: S_def called_def)
  have ct3: "clients_table st3 = clients_table st"
    by (simp add: st3_def st2_def processBatch_frame S)
  have con3: "isConnected st3"
    by (simp add: st3_def st2_def processBatch_frame S)
  have f3: "failedClients (run_stats st3) = failedClients (run_stats st)"
    "failedUsers (run_stats st3) = failedUsers (run_stats st)"
    using processBatch_no_failures [OF nu, of "id_c dbClient" ?us S] S
    by (simp_all add: st3_def st2_def)
  have "\<forall>v \<in> set ?us. (id_c dbClient, uid v) \<in> set (storedUsers S)"
    unfolding storedUsers_cong [OF S(2)] idc by (rule stored)
  then have "userKeys st2 = userKeys S"
    unfolding st2_def by (rule processBatch_stored_keys)
  then have uk3: "userKeys st3 = userKeys st"
    using userKeys_cong [OF S(2)] by (simp add: st3_def userKeys_def)
  have c3: "covered st3 w cs"
    unfolding covered_cong [OF ct3 uk3] by (rule rest)
  have l: "clientLoop w (c # cs) st = clientLoop w cs st3"
    using p by (simp add: st3_def st2_def S_def)
  have "\<forall>c \<in> set cs. \<not> isl (userSearch w (ou c))"
    using Cons.prems(1) by simp
  from Cons.IH [OF this con3 c3] obtain st' where
    "clientLoop w cs st3 = Some st'" "clients_table st' = clients_table st3"
    "userKeys st' = userKeys st3"
    "failedClients (run_stats st') = failedClients (run_stats st3)"
    "failedUsers (run_stats st') = failedUsers (run_stats st3)"
    by blast
  then show ?case
    using l ct3 uk3 f3 by simp
qed

lemma disconnect_tables:
  "clients_table (disconnect w st) = clients_table st"
  "users_table (disconnect w st) = users_table st"
  by (auto simp: disconnect_def called_def Let_def split: option.splits)

lemma directoryClients_Inr:
  "clientSearch w = Inr es \<Longrightarrow>
   directoryClients w =
     filter (\<lambda>client. ou client \<noteq> [] \<and> ou client \<noteq> ''clients'') (map toClientOU es)"
  by (simp add: directoryClients_def)

text \<open>The run in a world without faults, from the state in which the loop starts.\<close>

lemma migrate_faultless:
  assumes "faultless w"
  shows "migrate w st =
     (case clientLoop w (directoryClients w)
             (st\<lparr>isConnected := True,
                 calls := calls st @ [ConnectCall, InitializeTablesCall, SearchClientsCall],
                 run_stats := initialStats\<lparr>totalClients := length (directoryClients w)\<rparr>\<rparr>) of
        None \<Rightarrow> None
      | Some st4 \<Rightarrow>
          Some (Inr \<lparr>success = (failedClients (run_stats st4) = 0 \<and> failedUsers (run_stats st4) = 0),
                     stats = run_stats st4, duration = endTime w - startTime w,
                     dryRun_r = dryRun w\<rparr>,
                disconnect w (logMigrationRun w (run_stats st4) st4)))"
proof -
  from assms obtain es where es: "clientSearch w = Inr es"
    by (cases "clientSearch w") (auto simp: faultless_def)
  have f: "bindFault w = None" "ddlFault w = None"
    using assms by (simp_all add: faultless_def)
  show ?thesis
    unfolding migrate_def directoryClients_Inr [OF es]
    by (simp add: connect_def initializeTables_def searchClients_def called_def es f Let_def
        cong: option.case_cong)
qed

lemma faultless_run:
  assumes "faultless w"
  defines "cs \<equiv> directoryClients w"
  defines "st0 \<equiv> \<lambda>st. st\<lparr>isConnected := True,
                 calls := calls st @ [ConnectCall, InitializeTablesCall, SearchClientsCall],
                 run_stats := initialStats\<lparr>totalClients := length (directoryClients w)\<rparr>\<rparr>"
  shows "\<exists>st4. clientLoop w cs (st0 st) = Some st4 \<and> covered st4 w cs
           \<and> failedClients (run_stats st4) = 0 \<and> failedUsers (run_stats st4) = 0
           \<and> successfulClients (run_stats st4) = totalClients (run_stats st4)
           \<and> successfulUsers (run_stats st4) = totalUsers (run_stats st4)
           \<and> (covered st w cs \<longrightarrow>
                clients_table st4 = clients_table st \<and> userKeys st4 = userKeys st)"
proof -
  from assms(1) obtain b where bs: "batchSize w = Some b" "0 < b"
    by (auto simp: faultless_def)
  have nc: "\<forall>k. clientRepoFault w k = None" and nu: "\<forall>cid u. userRepoFault w cid u = None"
    and ns: "\<forall>c \<in> set cs. \<not> isl (userSearch w (ou c))"
    using assms(1) by (simp_all add: faultless_def cs_def)
  have con: "isConnected (st0 st)"
    by (simp add: st0_def)
  have z: "failedClients (run_stats (st0 st)) = 0" "failedUsers (run_stats (st0 st)) = 0"
    "successfulClients (run_stats (st0 st)) = 0" "totalClients (run_stats (st0 st)) = length cs"
    "tallied (run_stats (st0 st))"
    by (simp_all add: st0_def initialStats_def tallied_def cs_def)
  from clientLoop_first_run [OF nc nu bs ns con] obtain st4 where
    l: "clientLoop w cs (st0 st) = Some st4" and c: "covered st4 w cs"
    and f: "failedClients (run_stats st4) = failedClients (run_stats (st0 st))"
      "failedUsers (run_stats st4) = failedUsers (run_stats (st0 st))"
    by blast
  have t: "tallied (run_stats st4)
   \<and> successfulClients (run_stats st4) + failedClients (run_stats st4)
       = successfulClients (run_stats (st0 st)) + failedClients (run_stats (st0 st)) + length cs
   \<and> totalClients (run_stats st4) = totalClients (run_stats (st0 st))"
    using l bs(1) z(5) by (rule clientLoop_tallied)
  have s: "successfulClients (run_stats st4) = totalClients (run_stats st4)"
    "successfulUsers (run_stats st4) = totalUsers (run_stats st4)"
    using t f z by (simp_all add: tallied_def)
  have k: "clients_table st4 = clients_table st \<and> userKeys st4 = userKeys st"
    if cov: "covered st w cs"
  proof -
    have e: "clients_table (st0 st) = clients_table st" "userKeys (st0 st) = userKeys st"
      by (simp_all add: st0_def userKeys_def)
    have "covered (st0 st) w cs"
      unfolding covered_cong [OF e] by (rule cov)
    from clientLoop_second_run [OF nc nu bs ns con this] obtain st' where
      "clientLoop w cs (st0 st) = Some st'" "clients_table st' = clients_table (st0 st)"
      "userKeys st' = userKeys (st0 st)"
      by blast
    then show ?thesis
      using l e by simp
  qed
  show ?thesis
    using l c f z s k by auto
qed

lemma sameDirectory_clients: "sameDirectory w1 w2 \<Longrightarrow> directoryClients w2 = directoryClients w1"
  by (simp add: sameDirectory_def directoryClients_def)

lemma sameDirectory_users:
  "sameDirectory w1 w2 \<Longrightarrow>
   \<forall>c \<in> set (directoryClients w1). directoryUsers w1 (ou c) = directoryUsers w2 (ou c)"
  by (simp add: sameDirectory_def directoryUsers_def)

lemma exampleWorld_directory:
  "directoryClients exampleWorld =
     [\<lparr>ou = ''clientA'', client_dn = ''ou=clientA,ou=clients,dc=example,dc=com''\<rparr>,
      \<lparr>ou = ''clientB'', client_dn = ''ou=clientB,ou=clients,dc=example,dc=com''\<rparr>]"
  by (simp add: directoryClients_def exampleWorld_def toClientOU_def clientEntry_def firstValue_def)

lemma exampleWorld_faultless: "faultless exampleWorld"
  unfolding faultless_def exampleWorld_directory
  by (simp add: exampleWorld_def exampleUsers_def)

lemma rerunWorld_directory: "directoryClients rerunWorld = directoryClients exampleWorld"
  by (simp add: directoryClients_def rerunWorld_def)

lemma rerunWorld_faultless: "faultless rerunWorld"
  unfolding faultless_def rerunWorld_directory exampleWorld_directory
  by (simp add: rerunWorld_def exampleWorld_def exampleUsers_def)

lemma rerunWorld_sameDirectory: "sameDirectory exampleWorld rerunWorld"
  by (simp add: sameDirectory_def rerunWorld_def)

subsection \<open>The columns of the user rows in a second run\<close>

lemma findIndex_map: "findIndex Q (map f xs) = findIndex (\<lambda>x. Q (f x)) xs"
  by (induction xs) simp_all

lemma findIndex_userKeys:
  "findIndex (\<lambda>r. client_id_u r = c \<and> username r = n) (users_table st) =
   findIndex (\<lambda>k. fst (snd k) = c \<and> snd (snd k) = n) (userKeys st)"
  by (simp add: userKeys_def findIndex_map)

lemma processUser_table:
  assumes "userRepoFault w c (uid u) = None"
  shows "users_table (processUser w u c st) =
     (case findIndex (\<lambda>r. client_id_u r = c \<and> username r = uid u) (users_table st) of
        Some i \<Rightarrow> (users_table st)[i := updateUser (preparedUser w u) (users_table st ! i)]
      | None \<Rightarrow> users_table st @ [createUser (next_id st) (preparedUser w u) c])"
proof -
  have d: "uid (preparedUser w u) = uid u"
    by (simp add: preparedUser_def)
  have p: "processUser w u c st =
      (case upsertUser w (preparedUser w u) c st of
         (Inr user, st1) \<Rightarrow>
           st1\<lparr>run_stats := (run_stats st1)
                 \<lparr>successfulUsers := successfulUsers (run_stats st1) + 1\<rparr>\<rparr>
       | (Inl message, st1) \<Rightarrow>
           st1\<lparr>run_stats := (run_stats st1)
                 \<lparr>failedUsers := failedUsers (run_stats st1) + 1,
                  errors := errors (run_stats st1) @ [''User '' @ uid u @ '': '' @ message]\<rparr>\<rparr>)"
    by (simp add: processUser_def preparedUser_def Let_def)
  show ?thesis
  proof (cases "findIndex (\<lambda>r. client_id_u r = c \<and> username r = uid u) (users_table st)")
    case None
    then show ?thesis
      unfolding p using assms d by (simp add: upsertUser_new called_def)
  next
    case (Some i)
    then show ?thesis
      unfolding p using assms d by (simp add: upsertUser_found called_def)
  qed
qed

lemma updateUser_prepared:
  "first_name (updateUser (preparedUser w u) r) =
     (if givenName u = [] then first_name r else Some (givenName u))"
  "last_name (updateUser (preparedUser w u) r) = (if sn u = [] then last_name r else Some (sn u))"
  "email (updateUser (preparedUser w u) r) = (if mail u = [] then email r else Some (mail u))"
  "ldap_dn (updateUser (preparedUser w u) r) = (if False then ldap_dn r else dn u)"
  by (simp_all add: updateUser_def preparedUser_def js_or_def)

lemma createUser_prepared:
  "first_name (createUser n (preparedUser w u) c) = Some (givenName u)"
  "last_name (createUser n (preparedUser w u) c) = Some (sn u)"
  "email (createUser n (preparedUser w u) c) = Some (mail u)"
  "ldap_dn (createUser n (preparedUser w u) c) = dn u"
  by (simp_all add: createUser_def preparedUser_def)

lemma withoutCredential_eq:
  assumes "id_u r = id_u r'" "client_id_u r = client_id_u r'" "username r = username r'"
    "first_name r = first_name r'" "last_name r = last_name r'" "email r = email r'"
    "ldap_dn r = ldap_dn r'"
  shows "withoutCredential r = withoutCredential r'"
  using assms by (cases r, cases r') (simp add: withoutCredential_def)

lemma userKeys_length: "userKeys B = userKeys T \<Longrightarrow> length (users_table B) = length (users_table T)"
  by (metis length_map userKeys_def)

text \<open>Where processUser writes, in a world in which its upsert does not fail.\<close>

lemma processUser_writes:
  assumes nf: "userRepoFault w c (uid u) = None"
  shows "\<exists>p. findIndex (\<lambda>r. client_id_u r = c \<and> username r = uid u)
               (users_table (processUser w u c st)) = Some p
           \<and> ((p < length (users_table st)
                \<and> users_table (processUser w u c st) =
                    (users_table st)[p := updateUser (preparedUser w u) (users_table st ! p)])
              \<or> (p = length (users_table st)
                \<and> users_table (processUser w u c st) =
                    users_table st @ [createUser (next_id st) (preparedUser w u) c]))"
proof (cases "findIndex (\<lambda>r. client_id_u r = c \<and> username r = uid u) (users_table st)")
  case None
  have t: "users_table (processUser w u c st) =
      users_table st @ [createUser (next_id st) (preparedUser w u) c]"
    using processUser_table [OF nf, of st] None by simp
  have "uid (preparedUser w u) = uid u"
    by (simp add: preparedUser_def)
  then have "findIndex (\<lambda>r. client_id_u r = c \<and> username r = uid u)
      (users_table st @ [createUser (next_id st) (preparedUser w u) c])
      = Some (length (users_table st))"
    using None by (simp add: findIndex_snoc_None)
  then show ?thesis
    using t by simp
next
  case (Some q)
  have q: "q < length (users_table st)"
    using Some by (auto dest: findIndex_Some)
  have t: "users_table (processUser w u c st) =
      (users_table st)[q := updateUser (preparedUser w u) (users_table st ! q)]"
    using processUser_table [OF nf, of st] Some by simp
  have "(c, uid u) \<in> set (storedUsers st)"
    using Some findIndex_storedUsers [of c "uid u" st] by simp
  then have "userKeys (processUser w u c st) = userKeys st"
    by (rule processUser_stored_keys)
  then have "findIndex (\<lambda>r. client_id_u r = c \<and> username r = uid u)
      (users_table (processUser w u c st)) = Some q"
    using Some by (simp add: findIndex_userKeys)
  then show ?thesis
    using t q by simp
qed

lemma sameColumn_step:
  fixes f :: "User \<Rightarrow> 'a"
  assumes U1: "\<And>r. f (updateUser (preparedUser w1 u) r) = (if keep then f r else v)"
    and U2: "\<And>r. f (updateUser (preparedUser w2 u) r) = (if keep then f r else v)"
    and C1: "\<And>n. \<not> keep \<Longrightarrow> f (createUser n (preparedUser w1 u) c) = v"
    and nf1: "userRepoFault w1 c (uid u) = None"
    and nf2: "userRepoFault w2 c (uid u) = None"
    and keysB: "userKeys B = userKeys T"
    and pre: "userKeys T = userKeys (processUser w1 u c A) @ ext"
    and hyp: "sameColumn f A B T"
  shows "sameColumn f (processUser w1 u c A) (processUser w2 u c B) T"
proof -
  let ?P = "\<lambda>r. client_id_u r = c \<and> username r = uid u"
  let ?A' = "processUser w1 u c A"
  let ?B' = "processUser w2 u c B"
  from processUser_writes [OF nf1, of A] obtain p0 where
    pA': "findIndex ?P (users_table ?A') = Some p0"
    and wA: "(p0 < length (users_table A)
              \<and> users_table ?A' =
                  (users_table A)[p0 := updateUser (preparedUser w1 u) (users_table A ! p0)])
           \<or> (p0 = length (users_table A)
              \<and> users_table ?A' =
                  users_table A @ [createUser (next_id A) (preparedUser w1 u) c])"
    by blast
  have pT: "findIndex ?P (users_table T) = Some p0"
    unfolding findIndex_userKeys pre
    using pA' [unfolded findIndex_userKeys] by (rule findIndex_append_Some)
  have pB: "findIndex ?P (users_table B) = Some p0"
    unfolding findIndex_userKeys keysB using pT [unfolded findIndex_userKeys] .
  have lenB: "length (users_table B) = length (users_table T)"
    using keysB by (rule userKeys_length)
  have p0B: "p0 < length (users_table B)"
    using pB by (auto dest: findIndex_Some)
  have tB: "users_table ?B' =
      (users_table B)[p0 := updateUser (preparedUser w2 u) (users_table B ! p0)]"
    using processUser_table [OF nf2, of B] pB by simp
  have lenA: "length (users_table A) \<le> length (users_table ?A')"
    using wA by auto
  show ?thesis
    unfolding sameColumn_def
  proof (intro allI impI)
    fix p assume p: "p < length (users_table T)"
    from hyp p have h: "(p < length (users_table A)
         \<and> f (users_table B ! p) = f (users_table A ! p))
        \<or> f (users_table B ! p) = f (users_table T ! p)"
      by (simp add: sameColumn_def)
    show "(p < length (users_table ?A')
         \<and> f (users_table ?B' ! p) = f (users_table ?A' ! p))
        \<or> f (users_table ?B' ! p) = f (users_table T ! p)"
    proof (cases "p = p0")
      case False
      have b: "users_table ?B' ! p = users_table B ! p"
        using False by (simp add: tB)
      have a: "p < length (users_table A) \<Longrightarrow> users_table ?A' ! p = users_table A ! p"
        using False wA by (auto simp: nth_append)
      show ?thesis
        using h a b lenA by auto
    next
      case True
      have b: "f (users_table ?B' ! p) = (if keep then f (users_table B ! p) else v)"
        using True p0B by (simp add: tB U2)
      from wA show ?thesis
      proof
        assume w: "p0 < length (users_table A)
              \<and> users_table ?A' =
                  (users_table A)[p0 := updateUser (preparedUser w1 u) (users_table A ! p0)]"
        then have a: "f (users_table ?A' ! p) = (if keep then f (users_table A ! p) else v)"
          and l: "p < length (users_table ?A')" "p < length (users_table A)"
          using True by (simp_all add: U1)
        show ?thesis
          using h a b l by (cases keep) auto
      next
        assume w: "p0 = length (users_table A)
              \<and> users_table ?A' =
                  users_table A @ [createUser (next_id A) (preparedUser w1 u) c]"
        then have l: "p < length (users_table ?A')" "\<not> p < length (users_table A)"
          using True by simp_all
        have a: "\<not> keep \<Longrightarrow> f (users_table ?A' ! p) = v"
          using w True by (simp add: C1)
        show ?thesis
          using h a b l by (cases keep) auto
      qed
    qed
  qed
qed

lemma follows_step:
  assumes nf1: "userRepoFault w1 c (uid u) = None"
    and nf2: "userRepoFault w2 c (uid u) = None"
    and fo: "follows A B T"
    and pre: "userKeys T = userKeys (processUser w1 u c A) @ ext"
  shows "follows (processUser w1 u c A) (processUser w2 u c B) T"
proof -
  have keysB: "userKeys B = userKeys T" and cl: "clients_table B = clients_table T"
    and h: "sameColumn first_name A B T" "sameColumn last_name A B T"
      "sameColumn email A B T" "sameColumn ldap_dn A B T"
    using fo by (simp_all add: follows_def)
  have "(c, uid u) \<in> set (storedUsers (processUser w1 u c A))"
    using nf1 by (intro processUser_stores) (simp add: userFails_def)
  then have "(c, uid u) \<in> set (storedUsers T)"
    by (simp add: storedUsers_userKeys pre)
  then have "(c, uid u) \<in> set (storedUsers B)"
    by (simp add: storedUsers_userKeys keysB)
  then have k: "userKeys (processUser w2 u c B) = userKeys T"
    using keysB by (simp add: processUser_stored_keys)
  have c1: "sameColumn first_name (processUser w1 u c A) (processUser w2 u c B) T"
    using updateUser_prepared(1) updateUser_prepared(1) _ nf1 nf2 keysB pre h(1)
    by (rule sameColumn_step) (simp add: createUser_prepared)
  have c2: "sameColumn last_name (processUser w1 u c A) (processUser w2 u c B) T"
    using updateUser_prepared(2) updateUser_prepared(2) _ nf1 nf2 keysB pre h(2)
    by (rule sameColumn_step) (simp add: createUser_prepared)
  have c3: "sameColumn email (processUser w1 u c A) (processUser w2 u c B) T"
    using updateUser_prepared(3) updateUser_prepared(3) _ nf1 nf2 keysB pre h(3)
    by (rule sameColumn_step) (simp add: createUser_prepared)
  have c4: "sameColumn ldap_dn (processUser w1 u c A) (processUser w2 u c B) T"
    using updateUser_prepared(4) updateUser_prepared(4) _ nf1 nf2 keysB pre h(4)
    by (rule sameColumn_step) (simp add: createUser_prepared)
  show ?thesis
    using k cl c1 c2 c3 c4 by (simp add: follows_def processUser_frame)
qed

lemma follows_batch:
  assumes nu1: "\<forall>cid u. userRepoFault w1 cid u = None"
    and nu2: "\<forall>cid u. userRepoFault w2 cid u = None"
  shows "follows A B T \<Longrightarrow> \<exists>ext. userKeys T = userKeys (processBatch w1 c us A) @ ext \<Longrightarrow>
         follows (processBatch w1 c us A) (processBatch w2 c us B) T"
proof (induction us arbitrary: A B)
  case Nil
  then show ?case by simp
next
  case (Cons u us)
  from Cons.prems(2) obtain e1 where
    e1: "userKeys T = userKeys (processBatch w1 c us (processUser w1 u c A)) @ e1"
    by auto
  obtain e2 where
    e2: "userKeys (processBatch w1 c us (processUser w1 u c A))
          = userKeys (processUser w1 u c A) @ e2"
    using processBatch_prefix by blast
  have pre: "userKeys T = userKeys (processUser w1 u c A) @ (e2 @ e1)"
    using e1 e2 by simp
  have n: "userRepoFault w1 c (uid u) = None" "userRepoFault w2 c (uid u) = None"
    using nu1 nu2 by simp_all
  have "follows (processUser w1 u c A) (processUser w2 u c B) T"
    using n Cons.prems(1) pre by (rule follows_step)
  moreover have "\<exists>ext. userKeys T = userKeys (processBatch w1 c us (processUser w1 u c A)) @ ext"
    using e1 ..
  ultimately have "follows (processBatch w1 c us (processUser w1 u c A))
      (processBatch w2 c us (processUser w2 u c B)) T"
    by (rule Cons.IH)
  then show ?case by simp
qed

lemma follows_cong:
  assumes "users_table A' = users_table A" and "users_table B' = users_table B"
    and "clients_table B' = clients_table B"
  shows "follows A' B' T = follows A B T"
  using assms by (simp add: follows_def sameColumn_def userKeys_def)

lemma follows_clients:
  assumes nc1: "\<forall>k. clientRepoFault w1 k = None"
    and nu1: "\<forall>cid u. userRepoFault w1 cid u = None"
    and bs1: "batchSize w1 = Some b1" "0 < b1"
    and nc2: "\<forall>k. clientRepoFault w2 k = None"
    and nu2: "\<forall>cid u. userRepoFault w2 cid u = None"
    and bs2: "batchSize w2 = Some b2" "0 < b2"
  shows "\<forall>c \<in> set cs. \<not> isl (userSearch w1 (ou c)) \<Longrightarrow>
         \<forall>c \<in> set cs. \<not> isl (userSearch w2 (ou c)) \<Longrightarrow>
         \<forall>c \<in> set cs. directoryUsers w1 (ou c) = directoryUsers w2 (ou c) \<Longrightarrow>
         isConnected A \<Longrightarrow> isConnected B \<Longrightarrow> follows A B T \<Longrightarrow>
         clientLoop w1 cs A = Some A' \<Longrightarrow> keepsRows A' T \<Longrightarrow>
         \<exists>B'. clientLoop w2 cs B = Some B' \<and> follows A' B' T"
proof (induction cs arbitrary: A B)
  case Nil
  then show ?case by simp
next
  case (Cons c cs)
  let ?us = "directoryUsers w1 (ou c)"
  have us2: "directoryUsers w2 (ou c) = ?us"
    using Cons.prems(3) by simp
  have n1: "clientRepoFault w1 (ou c) = None" and n2: "clientRepoFault w2 (ou c) = None"
    using nc1 nc2 by simp_all
  have s1: "\<not> isl (userSearch w1 (ou c))" and s2: "\<not> isl (userSearch w2 (ou c))"
    using Cons.prems(1,2) by simp_all
  have r1: "\<forall>c \<in> set cs. \<not> isl (userSearch w1 (ou c))"
    and r2: "\<forall>c \<in> set cs. \<not> isl (userSearch w2 (ou c))"
    and r3: "\<forall>c \<in> set cs. directoryUsers w1 (ou c) = directoryUsers w2 (ou c)"
    using Cons.prems(1,2,3) by simp_all
  \<comment> \<open>the first run\<close>
  define d1 where "d1 = projr (fst (upsertClient w1 (ou c) None A))"
  define A1 where "A1 = snd (upsertClient w1 (ou c) None A)"
  have u1: "upsertClient w1 (ou c) None A = (Inr d1, A1)"
    unfolding d1_def A1_def using n1 by (rule upsertClient_ok(1))
  have a1: "clientIdOf A1 (ou c) = Some (id_c d1)"
    unfolding d1_def A1_def using n1 by (rule upsertClient_ok(2))
  define SA where "SA = (called (SearchUsersCall (ou c)) A1)
            \<lparr>run_stats := (run_stats A1)
               \<lparr>totalUsers := totalUsers (run_stats A1) + length ?us\<rparr>\<rparr>"
  define A2 where "A2 = processBatch w1 (id_c d1) ?us SA"
  define A3 where "A3 = A2\<lparr>run_stats := (run_stats A2)
                   \<lparr>successfulClients := successfulClients (run_stats A2) + 1\<rparr>\<rparr>"
  have p1: "processClient w1 c A = Some (None, A2)"
    unfolding A2_def SA_def using Cons.prems(4) n1 s1 bs1 u1 by (rule processClient_ok)
  have l1: "clientLoop w1 cs A3 = Some A'"
    using Cons.prems(7) p1 by (simp add: A3_def)
  note f1 = upsertClient_frame [OF u1]
  have SA: "clients_table SA = clients_table A1" "users_table SA = users_table A" "isConnected SA"
    using f1 Cons.prems(4) by (simp_all add: SA_def called_def)
  have A3: "clients_table A3 = clients_table A1" "users_table A3 = users_table A2"
    "isConnected A3"
    by (simp_all add: A3_def A2_def processBatch_frame SA)
  from clientLoop_first_run [OF nc1 nu1 bs1 r1 A3(3)] l1 have "keepsRows A3 A'"
    by auto
  then have k3: "keepsRows A3 T"
    using Cons.prems(8) by (rule keepsRows_trans)
  have "clientIdOf A3 (ou c) = Some (id_c d1)"
    unfolding clientIdOf_cong [OF A3(1)] by (rule a1)
  then have idT: "clientIdOf T (ou c) = Some (id_c d1)"
    using k3 by (simp add: keepsRows_def)
  have "userKeys A3 = userKeys A2"
    using A3(2) by (rule userKeys_cong)
  then have pre: "\<exists>ext. userKeys T = userKeys A2 @ ext"
    using k3 by (simp add: keepsRows_def)
  \<comment> \<open>the second run\<close>
  have cB: "clients_table B = clients_table T"
    using Cons.prems(6) by (simp add: follows_def)
  have idB: "clientIdOf B (ou c) = Some (id_c d1)"
    unfolding clientIdOf_cong [OF cB] by (rule idT)
  define d2 where "d2 = projr (fst (upsertClient w2 (ou c) None B))"
  define B1 where "B1 = snd (upsertClient w2 (ou c) None B)"
  have u2: "upsertClient w2 (ou c) None B = (Inr d2, B1)"
    unfolding d2_def B1_def using n2 by (rule upsertClient_ok(1))
  have a2: "clientIdOf B1 (ou c) = Some (id_c d2)"
    unfolding d2_def B1_def using n2 by (rule upsertClient_ok(2))
  have cB1: "clients_table B1 = clients_table B"
    unfolding B1_def using n2 idB by (intro upsertClient_ok(4)) simp_all
  have ids: "id_c d2 = id_c d1"
    using a2 idB unfolding clientIdOf_cong [OF cB1] by simp
  define SB where "SB = (called (SearchUsersCall (ou c)) B1)
            \<lparr>run_stats := (run_stats B1)
               \<lparr>totalUsers := totalUsers (run_stats B1) + length ?us\<rparr>\<rparr>"
  define B2 where "B2 = processBatch w2 (id_c d1) ?us SB"
  define B3 where "B3 = B2\<lparr>run_stats := (run_stats B2)
                   \<lparr>successfulClients := successfulClients (run_stats B2) + 1\<rparr>\<rparr>"
  have p2: "processClient w2 c B = Some (None, B2)"
    unfolding B2_def SB_def us2 [symmetric] ids [symmetric]
    using Cons.prems(5) n2 s2 bs2 u2 by (rule processClient_ok)
  have l2: "clientLoop w2 (c # cs) B = clientLoop w2 cs B3"
    using p2 by (simp add: B3_def)
  note f2 = upsertClient_frame [OF u2]
  have SB: "clients_table SB = clients_table B" "users_table SB = users_table B" "isConnected SB"
    using f2 cB1 Cons.prems(5) by (simp_all add: SB_def called_def)
  have B3: "clients_table B3 = clients_table B2" "users_table B3 = users_table B2"
    "isConnected B3"
    by (simp_all add: B3_def B2_def processBatch_frame SB)
  \<comment> \<open>both\<close>
  have "follows SA SB T"
    unfolding follows_cong [OF SA(2) SB(2) SB(1)] by (rule Cons.prems(6))
  then have "follows A2 B2 T"
    unfolding A2_def B2_def using pre [unfolded A2_def] by (intro follows_batch [OF nu1 nu2])
  then have "follows A3 B3 T"
    unfolding follows_cong [OF A3(2) B3(2) B3(1)] .
  from Cons.IH [OF r1 r2 r3 A3(3) B3(3) this l1 Cons.prems(8)] show ?case
    unfolding l2 .
qed

lemma follows_start:
  "users_table B = users_table T \<Longrightarrow> clients_table B = clients_table T \<Longrightarrow> follows A B T"
  by (simp add: follows_def sameColumn_def userKeys_def)

lemma follows_final:
  assumes fo: "follows A B T" and e: "users_table A = users_table T"
  shows "map withoutCredential (users_table B) = map withoutCredential (users_table T)"
proof -
  have k: "userKeys B = userKeys T"
    using fo by (simp add: follows_def)
  then have len: "length (users_table B) = length (users_table T)"
    by (rule userKeys_length)
  have "withoutCredential (users_table B ! p) = withoutCredential (users_table T ! p)"
    if p: "p < length (users_table T)" for p
  proof -
    have "userKeys B ! p = userKeys T ! p"
      using k by simp
    then have key: "id_u (users_table B ! p) = id_u (users_table T ! p)"
      "client_id_u (users_table B ! p) = client_id_u (users_table T ! p)"
      "username (users_table B ! p) = username (users_table T ! p)"
      using p len by (simp_all add: userKeys_def)
    have col: "first_name (users_table B ! p) = first_name (users_table T ! p)"
      "last_name (users_table B ! p) = last_name (users_table T ! p)"
      "email (users_table B ! p) = email (users_table T ! p)"
      "ldap_dn (users_table B ! p) = ldap_dn (users_table T ! p)"
      using fo p e by (auto simp: follows_def sameColumn_def)
    show ?thesis
      using key col by (rule withoutCredential_eq)
  qed
  then show ?thesis
    using len by (intro nth_equalityI) simp_all
qed

lemma faultlessD:
  assumes "faultless w"
  shows "\<forall>k. clientRepoFault w k = None" "\<forall>cid u. userRepoFault w cid u = None"
    "\<forall>c \<in> set (directoryClients w). \<not> isl (userSearch w (ou c))"
    "\<exists>b. batchSize w = Some b \<and> 0 < b"
  using assms by (simp_all add: faultless_def)

section \<open>The claim about a second run\<close>




end
